theory Spec2Isabelle
  imports Main "HOL-Library.Sublist"
begin

section \<open>The dependency graph\<close>

text \<open>
  \<^verbatim>\<open>export type DependencyMap = Map<string, string[]>\<close> (parser.ts).  A JavaScript
  \<^verbatim>\<open>Map\<close> iterates in insertion order, so the graph is an association list: one entry
  per scanned file, in the order the files were scanned, each with the list of its
  resolved imports (duplicates kept, in source order).
\<close>

type_synonym DependencyMap = "(string \<times> string list) list"

text \<open>\<^verbatim>\<open>dependencyMap.get(node) || []\<close>\<close>

definition get_or_empty :: "DependencyMap \<Rightarrow> string \<Rightarrow> string list" where
  "get_or_empty dependencyMap node =
     (case map_of dependencyMap node of Some deps \<Rightarrow> deps | None \<Rightarrow> [])"

text \<open>
  \<^verbatim>\<open>Array.prototype.indexOf\<close>: the first index holding the value, or \<open>-1\<close>;
  \<^verbatim>\<open>Array.prototype.slice(start)\<close>: a negative start counts from the end.
\<close>

fun indexOf :: "'a list \<Rightarrow> 'a \<Rightarrow> int" where
  "indexOf [] x = - 1"
| "indexOf (y # ys) x =
     (if y = x then 0 else (let i = indexOf ys x in if i < 0 then - 1 else i + 1))"

definition slice_from :: "'a list \<Rightarrow> int \<Rightarrow> 'a list" where
  "slice_from xs start =
     (if start < 0 then drop (nat (int (length xs) + start)) xs else drop (nat start) xs)"

section \<open>Cycle detector (heuristicAnalyzer.ts, findCircularDependencies)\<close>

text \<open>
  The closure variables \<^verbatim>\<open>visited\<close>, \<^verbatim>\<open>recursionStack\<close> and \<^verbatim>\<open>cycles\<close>, and the
  \<^verbatim>\<open>path\<close> array that every recursive call receives and mutates in place, are threaded
  through the traversal as one state.  A cycle record \<^verbatim>\<open>{ path: string[] }\<close> has a single
  field and is modelled by the value of that field.
\<close>

record dfs_state =
  visited :: "string set"
  recursionStack :: "string set"
  path :: "string list"
  cycles :: "string list list"

text \<open>
  \<^verbatim>\<open>detectCycle(node, path)\<close> and the \<^verbatim>\<open>for (const dependency of dependencies)\<close> loop in
  its body.
\<close>

function (domintros) detectCycle :: "DependencyMap \<Rightarrow> string \<Rightarrow> dfs_state \<Rightarrow> dfs_state"
  and detectCycle_for :: "DependencyMap \<Rightarrow> string list \<Rightarrow> dfs_state \<Rightarrow> dfs_state" where
  "detectCycle dependencyMap node st =
     (let st1 = st\<lparr>visited := insert node (visited st),
                    recursionStack := insert node (recursionStack st),
                    path := path st @ [node]\<rparr>;
          st2 = detectCycle_for dependencyMap (get_or_empty dependencyMap node) st1
      in st2\<lparr>path := butlast (path st2), recursionStack := recursionStack st2 - {node}\<rparr>)"
| "detectCycle_for dependencyMap [] st = st"
| "detectCycle_for dependencyMap (dependency # rest) st =
     (if dependency \<in> recursionStack st then
        detectCycle_for dependencyMap rest
          (st\<lparr>cycles := cycles st @
             [slice_from (path st) (indexOf (path st) dependency) @ [dependency]]\<rparr>)
      else if dependency \<notin> visited st then
        detectCycle_for dependencyMap rest (detectCycle dependencyMap dependency st)
      else detectCycle_for dependencyMap rest st)"
  by pat_completeness auto

text \<open>
  The recursion is nested: the loop continues in the state the recursive call returns.
  It ends because every recursive call marks a node that was not visited, and the visited
  set never shrinks.
\<close>

lemma visited_mono_partial:
  "detectCycle_detectCycle_for_dom (Inl (g, node, st)) \<Longrightarrow>
     visited st \<subseteq> visited (detectCycle g node st)"
  "detectCycle_detectCycle_for_dom (Inr (g, ds, st)) \<Longrightarrow>
     visited st \<subseteq> visited (detectCycle_for g ds st)"
proof (induction g node st and g ds st rule: detectCycle_detectCycle_for.pinduct)
  case (1 g node st)
  then show ?case by (auto simp: detectCycle.psimps Let_def)
next
  case (2 g st)
  then show ?case by (simp add: detectCycle_for.psimps)
next
  case (3 g dependency rest st)
  then show ?case by (auto simp: detectCycle_for.psimps)
qed

lemma get_or_empty_not_key: "node \<notin> fst ` set g \<Longrightarrow> get_or_empty g node = []"
  by (simp add: get_or_empty_def map_of_eq_None_iff[THEN iffD2])

termination detectCycle
proof (relation "inv_image (less_than <*lex*> less_than)
    (\<lambda>x. case x of
       Inl (g, node, st) \<Rightarrow>
         (card (fst ` set g - insert node (visited st)), 2 * length (get_or_empty g node) + 1)
     | Inr (g, ds, st) \<Rightarrow> (card (fst ` set g - visited st), 2 * length ds))", goal_cases)
  case 1
  show ?case by (intro wf_inv_image wf_lex_prod wf_less_than)
next
  case (2 g node st x)
  then show ?case by simp
next
  case (3 g dependency rest st)
  then show ?case by simp
next
  case (4 g dependency rest st)
  show ?case
  proof (cases "dependency \<in> fst ` set g")
    case True
    have "fst ` set g - insert dependency (visited st) \<subset> fst ` set g - visited st"
      using True 4 by auto
    then have "card (fst ` set g - insert dependency (visited st))
                 < card (fst ` set g - visited st)"
      by (intro psubset_card_mono) auto
    then show ?thesis by simp
  next
    case False
    then have "fst ` set g - insert dependency (visited st) = fst ` set g - visited st"
      by auto
    then show ?thesis using False by (simp add: get_or_empty_not_key)
  qed
next
  case (5 g dependency rest st)
  have "visited st \<subseteq> visited (detectCycle g dependency st)"
    using 5 by (intro visited_mono_partial)
  then have "card (fst ` set g - visited (detectCycle g dependency st))
               \<le> card (fst ` set g - visited st)"
    by (intro card_mono) auto
  then show ?case by auto
next
  case (6 g dependency rest st)
  then show ?case by simp
qed

text \<open>
  \<^verbatim>\<open>allNodes\<close> is a \<^verbatim>\<open>Set<string>\<close> seeded with the keys, to which every import target
  is then added; a \<^verbatim>\<open>Set\<close> iterates in insertion order and ignores a repeated add.
\<close>

definition set_add :: "'a \<Rightarrow> 'a list \<Rightarrow> 'a list" where
  "set_add x xs = (if x \<in> set xs then xs else xs @ [x])"

definition allNodes :: "DependencyMap \<Rightarrow> string list" where
  "allNodes dependencyMap =
     fold set_add (concat (map snd dependencyMap)) (fold set_add (map fst dependencyMap) [])"

text \<open>
  \<^verbatim>\<open>for (const node of allNodes) { if (!visited.has(node)) detectCycle(node, []) }\<close>:
  every root starts with a fresh, empty path array.
\<close>

fun roots_for :: "DependencyMap \<Rightarrow> string list \<Rightarrow> dfs_state \<Rightarrow> dfs_state" where
  "roots_for dependencyMap [] st = st"
| "roots_for dependencyMap (node # rest) st =
     roots_for dependencyMap rest
       (if node \<notin> visited st then detectCycle dependencyMap node (st\<lparr>path := []\<rparr>) else st)"

definition findCircularDependencies :: "DependencyMap \<Rightarrow> string list list" where
  "findCircularDependencies dependencyMap =
     cycles (roots_for dependencyMap (allNodes dependencyMap)
               \<lparr>visited = {}, recursionStack = {}, path = [], cycles = []\<rparr>)"


subsection \<open>Walks in the graph\<close>

text \<open>
  The vocabulary of the properties below: \<open>is_walk g p\<close> says that every element of \<open>p\<close>
  after the first occurs in the edge list of its predecessor; a closed walk has at least
  one edge and ends where it starts.
\<close>

fun is_walk :: "DependencyMap \<Rightarrow> string list \<Rightarrow> bool" where
  "is_walk g [] = True"
| "is_walk g [x] = True"
| "is_walk g (x # y # rest) = (y \<in> set (get_or_empty g x) \<and> is_walk g (y # rest))"

definition closed_walk :: "DependencyMap \<Rightarrow> string list \<Rightarrow> bool" where
  "closed_walk g p = (2 \<le> length p \<and> hd p = last p \<and> is_walk g p)"

definition edges :: "DependencyMap \<Rightarrow> (string \<times> string) set" where
  "edges g = {(a, b). b \<in> set (get_or_empty g a)}"

text \<open>
  What holds of the state whenever \<open>detectCycle\<close> or its loop is entered: the recursion
  stack holds exactly the nodes of the open path, no node is twice on the path, the path
  is a walk, and every record emitted so far is a closed walk.
\<close>

definition dfs_inv :: "DependencyMap \<Rightarrow> dfs_state \<Rightarrow> bool" where
  "dfs_inv g st =
     (recursionStack st = set (path st) \<and> distinct (path st) \<and>
      set (path st) \<subseteq> visited st \<and> is_walk g (path st) \<and>
      list_all (closed_walk g) (cycles st))"

section \<open>Hub detector (heuristicAnalyzer.ts, findTightlyCoupledModules)\<close>

text \<open>A hub record \<^verbatim>\<open>{ module: string; importedBy: string[] }\<close>.\<close>

record hub =
  module :: string
  importedBy :: "string list"

text \<open>
  \<^verbatim>\<open>incomingMap\<close> is a \<^verbatim>\<open>Map<string, string[]>\<close> in insertion order.  The body of the
  inner loop, \<^verbatim>\<open>const importers = incomingMap.get(importedModule) || [];
  importers.push(importer); incomingMap.set(importedModule, importers)\<close>, appends to the
  entry of a known key, which keeps its place, or adds a new entry at the end.
\<close>

fun push_importer ::
  "string \<Rightarrow> string \<Rightarrow> (string \<times> string list) list \<Rightarrow> (string \<times> string list) list" where
  "push_importer importer importedModule [] = [(importedModule, [importer])]"
| "push_importer importer importedModule ((k, importers) # rest) =
     (if k = importedModule then (k, importers @ [importer]) # rest
      else (k, importers) # push_importer importer importedModule rest)"

definition incomingMap :: "DependencyMap \<Rightarrow> (string \<times> string list) list" where
  "incomingMap dependencyMap =
     fold (\<lambda>(importer, dependencies) acc.
             fold (\<lambda>importedModule acc'. push_importer importer importedModule acc')
               dependencies acc)
       dependencyMap []"

text \<open>
  The threshold is a JavaScript \<^verbatim>\<open>number\<close>, here an integer.  \<^verbatim>\<open>hubs.sort((a, b) =>
  b.importedBy.length - a.importedBy.length)\<close> is a stable sort (ECMAScript 2019), by
  descending number of importers.
\<close>

definition findTightlyCoupledModules :: "DependencyMap \<Rightarrow> int \<Rightarrow> hub list" where
  "findTightlyCoupledModules dependencyMap threshold =
     sort_key (\<lambda>h. - int (length (importedBy h)))
       (map (\<lambda>(m, imps). \<lparr>module = m, importedBy = imps\<rparr>)
          (filter (\<lambda>(m, imps). threshold \<le> int (length imps)) (incomingMap dependencyMap)))"

text \<open>
  The reverse adjacency in the words of the specification: the importers of \<open>m\<close> are the
  sources of the edges into \<open>m\<close>, every edge taken once, in the order of the graph.
\<close>

definition importers_of :: "DependencyMap \<Rightarrow> string \<Rightarrow> string list" where
  "importers_of g m = [importer. (importer, deps) \<leftarrow> g, d \<leftarrow> deps, d = m]"


text \<open>Reading the importer map, and what it satisfies while it is built.\<close>

definition lookup :: "(string \<times> string list) list \<Rightarrow> string \<Rightarrow> string list" where
  "lookup acc m = (case map_of acc m of None \<Rightarrow> [] | Some v \<Rightarrow> v)"

definition wf_incoming :: "(string \<times> string list) list \<Rightarrow> bool" where
  "wf_incoming acc = (distinct (map fst acc) \<and> [] \<notin> snd ` set acc)"

section \<open>Graph builder (parser.ts, parseDependencies)\<close>

text \<open>
  The parser calls four functions of Node's \<^verbatim>\<open>path\<close> module, whose behaviour depends on
  the host platform.  The module is not part of the repository, so the parser is modelled
  over any implementation of the four functions.
\<close>

record path_module =
  extname :: "string \<Rightarrow> string"
  dirname :: "string \<Rightarrow> string"
  join :: "string \<Rightarrow> string \<Rightarrow> string"
  normalize :: "string \<Rightarrow> string"

text \<open>
  The loop \<^verbatim>\<open>while ((match = importRegex.exec(content)) !== null)\<close> of one file.  Its
  input is the list of the targets \<^verbatim>\<open>match[1]\<close> that the regular expression captures in
  the file's content, in order; \<^verbatim>\<open>continue\<close> goes on with the next match and pushes
  nothing.
\<close>

fun match_loop :: "path_module \<Rightarrow> string \<Rightarrow> string list \<Rightarrow> string list \<Rightarrow> string list" where
  "match_loop P relativeFilePath [] dependencies = dependencies"
| "match_loop P relativeFilePath (importPath # matches) dependencies =
     (let fileExtension = extname P importPath in
      if fileExtension \<noteq> [] then
        (if fileExtension \<in> set [''.ts'', ''.tsx'', ''.js'', ''.jsx''] then
           match_loop P relativeFilePath matches
             (dependencies @ [normalize P (join P (dirname P relativeFilePath) importPath)])
         else match_loop P relativeFilePath matches dependencies)
      else
        match_loop P relativeFilePath matches
          (dependencies @
             [normalize P (join P (dirname P relativeFilePath) (importPath @ ''.ts''))]))"

text \<open>\<^verbatim>\<open>relativeFilePath.replace(/\\/g, '/')\<close> and \<^verbatim>\<open>Map.prototype.set\<close>.\<close>

definition backslash :: char where
  "backslash = CHR 0x5C"

definition replace_backslashes :: "string \<Rightarrow> string" where
  "replace_backslashes s = map (\<lambda>c. if c = backslash then CHR ''/'' else c) s"

fun map_set :: "'k \<Rightarrow> 'v \<Rightarrow> ('k \<times> 'v) list \<Rightarrow> ('k \<times> 'v) list" where
  "map_set k v [] = [(k, v)]"
| "map_set k v ((k', v') # rest) =
     (if k' = k then (k', v) # rest else (k', v') # map_set k v rest)"

text \<open>
  The loop over \<^verbatim>\<open>analysisFiles\<close>.  A file is given by its path relative to the working
  directory and by what reading it yields: \<open>None\<close> when \<^verbatim>\<open>fs.readFile\<close> fails (the
  \<^verbatim>\<open>catch\<close> logs the error and the file gets no entry), otherwise the import targets
  found in its content.
\<close>

fun files_loop ::
  "path_module \<Rightarrow> (string \<times> string list option) list \<Rightarrow> DependencyMap \<Rightarrow> DependencyMap" where
  "files_loop P [] dependencyMap = dependencyMap"
| "files_loop P ((relativeFilePath, content) # files) dependencyMap =
     (case content of
        None \<Rightarrow> files_loop P files dependencyMap
      | Some matches \<Rightarrow>
          files_loop P files
            (map_set (replace_backslashes relativeFilePath)
               (match_loop P relativeFilePath matches []) dependencyMap))"

text \<open>
  \<^verbatim>\<open>parseDependencies\<close>.  Its input is what \<^verbatim>\<open>glob\<close> finds, every file given by
  \<^verbatim>\<open>path.relative(process.cwd(), path.resolve(f))\<close> and by what reading it yields.  The
  tool's own files are removed before the loop: \<^verbatim>\<open>path.resolve(f)\<close> is one of the resolved
  \<^verbatim>\<open>toolFiles\<close> exactly when the relative path of \<open>f\<close> is the normalized form of one of
  the four names.
\<close>

definition toolFiles :: "string list" where
  "toolFiles = [''src/index.ts'', ''src/core/parser.ts'', ''src/analyzers/llmAnalyzer.ts'',
                ''src/analyzers/heuristicAnalyzer.ts'']"

definition parseDependencies ::
  "path_module \<Rightarrow> (string \<times> string list option) list \<Rightarrow> DependencyMap" where
  "parseDependencies P files =
     (let analysisFiles =
            filter (\<lambda>(f, content). f \<notin> set (map (normalize P) toolFiles)) files
      in files_loop P analysisFiles [])"

subsection \<open>Node's path module on the two kinds of host\<close>

text \<open>
  \<^verbatim>\<open>path.posix\<close> and \<^verbatim>\<open>path.win32\<close>, after Node's \<^verbatim>\<open>lib/path.js\<close>, for paths without a
  drive letter or a UNC prefix (the paths relative to the working directory that the
  parser handles).  Windows accepts both separators and writes the backslash.
\<close>

datatype platform = Posix | Win32

fun isPathSeparator :: "platform \<Rightarrow> char \<Rightarrow> bool" where
  "isPathSeparator Posix c = (c = CHR ''/'')"
| "isPathSeparator Win32 c = (c = CHR ''/'' \<or> c = backslash)"

fun sep :: "platform \<Rightarrow> char" where
  "sep Posix = CHR ''/''"
| "sep Win32 = backslash"

text \<open>
  \<^verbatim>\<open>normalizeString\<close> works segment by segment: empty segments and \<^verbatim>\<open>.\<close> are dropped,
  \<^verbatim>\<open>..\<close> removes the segment before it, or is kept where nothing can be removed and the
  path is relative.
\<close>

fun split_segments :: "(char \<Rightarrow> bool) \<Rightarrow> string \<Rightarrow> string list" where
  "split_segments isSep [] = [[]]"
| "split_segments isSep (c # cs) =
     (if isSep c then [] # split_segments isSep cs
      else (case split_segments isSep cs of
              s # ss \<Rightarrow> (c # s) # ss
            | [] \<Rightarrow> [[c]]))"

fun normalizeSegments :: "bool \<Rightarrow> string list \<Rightarrow> string list \<Rightarrow> string list" where
  "normalizeSegments allowAboveRoot res [] = res"
| "normalizeSegments allowAboveRoot res (seg # segs) =
     (if seg = [] \<or> seg = ''.'' then normalizeSegments allowAboveRoot res segs
      else if seg = ''..'' then
        (if res \<noteq> [] \<and> last res \<noteq> ''..'' then
           normalizeSegments allowAboveRoot (butlast res) segs
         else if allowAboveRoot then normalizeSegments allowAboveRoot (res @ [''..'']) segs
         else normalizeSegments allowAboveRoot res segs)
      else normalizeSegments allowAboveRoot (res @ [seg]) segs)"

fun join_segments :: "char \<Rightarrow> string list \<Rightarrow> string" where
  "join_segments s [] = []"
| "join_segments s [seg] = seg"
| "join_segments s (seg # segs) = seg @ [s] @ join_segments s segs"

definition path_normalize :: "platform \<Rightarrow> string \<Rightarrow> string" where
  "path_normalize pf p =
     (if p = [] then ''.''
      else
        let isAbsolute = isPathSeparator pf (hd p);
            trailingSeparator = isPathSeparator pf (last p);
            res = join_segments (sep pf)
                    (normalizeSegments (\<not> isAbsolute) [] (split_segments (isPathSeparator pf) p))
        in if res = [] then
             (if isAbsolute then [sep pf]
              else if trailingSeparator then ''.'' @ [sep pf] else ''.'')
           else (if isAbsolute then [sep pf] else []) @ res @
                (if trailingSeparator then [sep pf] else []))"

definition path_join :: "platform \<Rightarrow> string \<Rightarrow> string \<Rightarrow> string" where
  "path_join pf a b =
     (let joined = (if a = [] then b else if b = [] then a else a @ [sep pf] @ b)
      in if joined = [] then ''.'' else path_normalize pf joined)"

text \<open>
  \<^verbatim>\<open>path.dirname\<close> scans from the end down to index 1 for the first separator that
  follows a character of the last segment; \<^verbatim>\<open>path.extname\<close> is the part of the last
  segment from its last dot, empty when there is no dot, when the only dot is the first
  character, or when the segment is \<^verbatim>\<open>..\<close>.
\<close>

fun dirname_end :: "(char \<Rightarrow> bool) \<Rightarrow> bool \<Rightarrow> string \<Rightarrow> nat option" where
  "dirname_end isSep matchedSlash [] = None"
| "dirname_end isSep matchedSlash (c # cs) =
     (if isSep c then
        (if \<not> matchedSlash then Some (Suc (length cs)) else dirname_end isSep matchedSlash cs)
      else dirname_end isSep False cs)"

definition path_dirname :: "platform \<Rightarrow> string \<Rightarrow> string" where
  "path_dirname pf p =
     (if p = [] then ''.''
      else
        let hasRoot = isPathSeparator pf (hd p) in
        case dirname_end (isPathSeparator pf) True (rev (tl p)) of
          None \<Rightarrow> (if hasRoot then [hd p] else ''.'')
        | Some e \<Rightarrow> (if pf = Posix \<and> hasRoot \<and> e = 1 then ''//'' else take e p))"

definition path_extname :: "platform \<Rightarrow> string \<Rightarrow> string" where
  "path_extname pf p =
     (let base_rev = takeWhile (\<lambda>c. \<not> isPathSeparator pf c)
                       (dropWhile (isPathSeparator pf) (rev p));
          ext_rev = takeWhile (\<lambda>c. c \<noteq> CHR ''.'') base_rev;
          pre_rev = drop (Suc (length ext_rev)) base_rev
      in if CHR ''.'' \<notin> set base_rev then []
         else if pre_rev = [] then []
         else if pre_rev = ''.'' \<and> ext_rev = [] then []
         else CHR ''.'' # rev ext_rev)"

definition node_path :: "platform \<Rightarrow> path_module" where
  "node_path pf = \<lparr>extname = path_extname pf, dirname = path_dirname pf,
                   join = path_join pf, normalize = path_normalize pf\<rparr>"

section \<open>Analysis orchestrator (server.ts)\<close>

text \<open>
  The result of the external analyzer (\<^verbatim>\<open>AnalysisResult\<close> in llmAnalyzer.ts), the result of
  the heuristic analysis and the combined report.
\<close>

record LlmAnalysisResult =
  llm_circularDependencies :: "(string list \<times> string) list"
  llm_tightlyCoupledModules :: "(string \<times> string list \<times> string) list"
  refactoringRecommendations :: "string list"

record HeuristicAnalysisResult =
  circularDependencies :: "string list list"
  tightlyCoupledModules :: "hub list"

definition HUB_THRESHOLD :: int where
  "HUB_THRESHOLD = 3"

definition analyzeHeuristically :: "DependencyMap \<Rightarrow> HeuristicAnalysisResult" where
  "analyzeHeuristically dependencyMap =
     \<lparr>circularDependencies = findCircularDependencies dependencyMap,
      tightlyCoupledModules = findTightlyCoupledModules dependencyMap HUB_THRESHOLD\<rparr>"

record FullAnalysisReport =
  timestamp :: string
  llmAnalysis :: LlmAnalysisResult
  heuristicAnalysis :: HeuristicAnalysisResult

text \<open>
  \<^verbatim>\<open>getErrorMessage(error: unknown)\<close>: a thrown value is an \<^verbatim>\<open>Error\<close> with its message,
  a string, or anything else.
\<close>

datatype thrown = ErrorObject string | StringValue string | OtherValue

fun getErrorMessage :: "thrown \<Rightarrow> string" where
  "getErrorMessage (ErrorObject message) = message"
| "getErrorMessage (StringValue s) = s"
| "getErrorMessage OtherValue = ''An unknown error occurred.''"

text \<open>
  JavaScript runs the code between two \<^verbatim>\<open>await\<close>s without interruption, so a call of the
  asynchronous \<^verbatim>\<open>runFullAnalysis\<close> is modelled by the point at which it is suspended:
  polling in the waiting branch (its timer fires every 100 ms), at
  \<^verbatim>\<open>await parseDependencies()\<close>, at \<^verbatim>\<open>await Promise.all([...])\<close> with the graph it
  parsed, or settled.  The server state is the two module variables, the calls made
  so far, and whether the process has ended.  The first call of the process is the one
  in the callback of \<^verbatim>\<open>app.listen\<close>, which awaits \<^verbatim>\<open>runFullAnalysis()\<close> without a
  \<^verbatim>\<open>catch\<close>: when that call rejects, the unhandled rejection ends the process (Node 15
  and later).  The two request handlers catch the rejection and answer 500.
\<close>

datatype call =
    Waiting
  | AwaitingParse
  | AwaitingAnalyses DependencyMap
  | Resolved FullAnalysisReport
  | Rejected string

record server =
  cachedAnalysis :: "FullAnalysisReport option"
  isAnalysisRunning :: bool
  calls :: "call list"
  exited :: bool

definition initial_server :: server where
  "initial_server =
     \<lparr>cachedAnalysis = None, isAnalysisRunning = False, calls = [], exited = False\<rparr>"

text \<open>
  What the event loop can run next: a new call of \<^verbatim>\<open>runFullAnalysis\<close>; the settling of
  \<^verbatim>\<open>parseDependencies()\<close> for a call (rejected with a thrown value, or resolved with a
  graph); the settling of \<^verbatim>\<open>Promise.all\<close> for a call (rejected, or resolved with the
  external analyzer's result, \<open>None\<close> for \<^verbatim>\<open>null\<close>), together with the time that
  \<^verbatim>\<open>new Date().toISOString()\<close> then returns; the timer of a waiting call.
\<close>

datatype event =
    Call
  | ParseSettled nat "thrown + DependencyMap"
  | AnalysesSettled nat "thrown + LlmAnalysisResult option" string
  | Tick nat

text \<open>
  The segments of \<^verbatim>\<open>runFullAnalysis\<close>.  \<^verbatim>\<open>catch\<close> rethrows
  \<^verbatim>\<open>new Error(getErrorMessage(error))\<close> and \<^verbatim>\<open>finally\<close> clears the flag (the rejection
  of call 0, the start-up call, then ends the process); the entry either
  takes the waiting branch or sets the flag and starts parsing; the timer callback
  resolves with \<^verbatim>\<open>cachedAnalysis\<close> when \<^verbatim>\<open>!isAnalysisRunning && cachedAnalysis\<close>; after
  parsing, an empty map throws; after the analyses, a \<^verbatim>\<open>null\<close> result throws, otherwise
  the report is cached and returned.
\<close>

definition catch_finally :: "nat \<Rightarrow> thrown \<Rightarrow> server \<Rightarrow> server" where
  "catch_finally i error s =
     s\<lparr>isAnalysisRunning := False, calls := (calls s)[i := Rejected (getErrorMessage error)],
       exited := (i = 0 \<or> exited s)\<rparr>"

definition runFullAnalysis_call :: "server \<Rightarrow> server" where
  "runFullAnalysis_call s =
     (if isAnalysisRunning s then s\<lparr>calls := calls s @ [Waiting]\<rparr>
      else s\<lparr>isAnalysisRunning := True, calls := calls s @ [AwaitingParse]\<rparr>)"

definition runFullAnalysis_poll :: "nat \<Rightarrow> server \<Rightarrow> server" where
  "runFullAnalysis_poll i s =
     (case cachedAnalysis s of
        Some report \<Rightarrow>
          (if \<not> isAnalysisRunning s then s\<lparr>calls := (calls s)[i := Resolved report]\<rparr> else s)
      | None \<Rightarrow> s)"

definition runFullAnalysis_parsed :: "nat \<Rightarrow> thrown + DependencyMap \<Rightarrow> server \<Rightarrow> server" where
  "runFullAnalysis_parsed i outcome s =
     (case outcome of
        Inl error \<Rightarrow> catch_finally i error s
      | Inr dependencyMap \<Rightarrow>
          (if length dependencyMap = 0 then
             catch_finally i (ErrorObject ''Parser found no files or dependencies.'') s
           else s\<lparr>calls := (calls s)[i := AwaitingAnalyses dependencyMap]\<rparr>))"

definition runFullAnalysis_analyzed ::
  "nat \<Rightarrow> DependencyMap \<Rightarrow> thrown + LlmAnalysisResult option \<Rightarrow> string \<Rightarrow> server \<Rightarrow> server" where
  "runFullAnalysis_analyzed i dependencyMap outcome now s =
     (case outcome of
        Inl error \<Rightarrow> catch_finally i error s
      | Inr None \<Rightarrow> catch_finally i (ErrorObject ''LLM analysis failed.'') s
      | Inr (Some llmResult) \<Rightarrow>
          (let report = \<lparr>timestamp = now, llmAnalysis = llmResult,
                          heuristicAnalysis = analyzeHeuristically dependencyMap\<rparr>
           in s\<lparr>cachedAnalysis := Some report, isAnalysisRunning := False,
                 calls := (calls s)[i := Resolved report]\<rparr>))"

text \<open>
  An event that does not belong to the state (a timer of a call that is not waiting, a
  settling nobody awaits) changes nothing, and nothing happens once the process has
  ended.
\<close>

fun dispatch :: "event \<Rightarrow> server \<Rightarrow> server" where
  "dispatch Call s = runFullAnalysis_call s"
| "dispatch (Tick i) s =
     (if i < length (calls s) \<and> calls s ! i = Waiting then runFullAnalysis_poll i s else s)"
| "dispatch (ParseSettled i outcome) s =
     (if i < length (calls s) \<and> calls s ! i = AwaitingParse then runFullAnalysis_parsed i outcome s
      else s)"
| "dispatch (AnalysesSettled i outcome now) s =
     (if i < length (calls s) then
        (case calls s ! i of
           AwaitingAnalyses dependencyMap \<Rightarrow> runFullAnalysis_analyzed i dependencyMap outcome now s
         | _ \<Rightarrow> s)
      else s)"

definition step :: "event \<Rightarrow> server \<Rightarrow> server" where
  "step e s = (if exited s then s else dispatch e s)"

definition run :: "event list \<Rightarrow> server \<Rightarrow> server" where
  "run events s = fold step events s"

text \<open>
  The handler of \<^verbatim>\<open>GET /api/analysis\<close>: the cached report, a run on demand, or 503
  \<^verbatim>\<open>pending\<close>.
\<close>

datatype get_response = Success FullAnalysisReport | RunOnDemand | Pending

definition get_analysis :: "server \<Rightarrow> get_response" where
  "get_analysis s =
     (case cachedAnalysis s of
        Some report \<Rightarrow> Success report
      | None \<Rightarrow> (if \<not> isAnalysisRunning s then RunOnDemand else Pending))"

text \<open>
  The vocabulary of the properties: a call is in the pipeline while it parses or
  analyses; \<open>single_flight\<close> says that the flag is set exactly when one call is in the
  pipeline, and that there is never more than one; \<open>settles e i c\<close> says that \<open>e\<close> is the
  settling that call \<open>i\<close> awaits in phase \<open>c\<close>; \<open>failure e\<close> is the message of the failure
  that a settling carries, if it carries one; \<open>lifecycle\<close> describes the states the process
  goes through: before the start-up call, while the start-up run is in flight (nothing is
  cached and every other call waits), ended because the start-up run failed, or serving
  with a cached report after the start-up run succeeded.
\<close>

fun in_pipeline :: "call \<Rightarrow> bool" where
  "in_pipeline AwaitingParse = True"
| "in_pipeline (AwaitingAnalyses dependencyMap) = True"
| "in_pipeline c = False"

definition single_flight :: "server \<Rightarrow> bool" where
  "single_flight s =
     (length (filter in_pipeline (calls s)) = (if isAnalysisRunning s then 1 else 0))"

definition lifecycle :: "server \<Rightarrow> bool" where
  "lifecycle s =
     (case calls s of
        [] \<Rightarrow> cachedAnalysis s = None \<and> \<not> isAnalysisRunning s \<and> \<not> exited s
      | c # ws \<Rightarrow>
          (case c of
             Waiting \<Rightarrow> False
           | Resolved report \<Rightarrow> cachedAnalysis s \<noteq> None \<and> \<not> exited s
           | Rejected message \<Rightarrow> exited s
           | _ \<Rightarrow> cachedAnalysis s = None \<and> isAnalysisRunning s \<and> \<not> exited s \<and>
                  list_all (\<lambda>w. w = Waiting) ws))"

fun settles :: "event \<Rightarrow> nat \<Rightarrow> call \<Rightarrow> bool" where
  "settles (ParseSettled j outcome) i AwaitingParse = (j = i)"
| "settles (AnalysesSettled j outcome now) i (AwaitingAnalyses dependencyMap) = (j = i)"
| "settles e i c = False"

fun failure :: "event \<Rightarrow> string option" where
  "failure (ParseSettled j (Inl error)) = Some (getErrorMessage error)"
| "failure (ParseSettled j (Inr dependencyMap)) =
     (if dependencyMap = [] then Some ''Parser found no files or dependencies.'' else None)"
| "failure (AnalysesSettled j (Inl error) now) = Some (getErrorMessage error)"
| "failure (AnalysesSettled j (Inr None) now) = Some ''LLM analysis failed.''"
| "failure e = None"

text \<open>The report that a successful run builds, and sample values for concrete runs.\<close>

definition make_report :: "string \<Rightarrow> LlmAnalysisResult \<Rightarrow> DependencyMap \<Rightarrow> FullAnalysisReport" where
  "make_report now llmResult dependencyMap =
     \<lparr>timestamp = now, llmAnalysis = llmResult,
      heuristicAnalysis = analyzeHeuristically dependencyMap\<rparr>"

definition sample_llm :: LlmAnalysisResult where
  "sample_llm = \<lparr>llm_circularDependencies = [], llm_tightlyCoupledModules = [],
                  refactoringRecommendations = [''Keep modules small.'']\<rparr>"

definition sample_graph :: DependencyMap where
  "sample_graph = [(''src/a.ts'', [''src/b.ts'']), (''src/b.ts'', [])]"

definition old_report :: FullAnalysisReport where
  "old_report = make_report ''2025-01-01T00:00:00.000Z'' sample_llm sample_graph"

text \<open>
  The server after a start-up run that succeeded, and the same server with a refresh in
  flight (call 1) and one more call waiting for it (call 2).
\<close>

definition serving_server :: server where
  "serving_server =
     run [Call, ParseSettled 0 (Inr sample_graph),
          AnalysesSettled 0 (Inr (Some sample_llm)) ''2025-01-01T00:00:00.000Z'']
       initial_server"

definition refreshing_server :: server where
  "refreshing_server = run [Call, Call, ParseSettled 1 (Inr sample_graph)] serving_server"

section \<open>Properties of the cycle detector\<close>

lemma indexOf_present: "x \<in> set xs \<Longrightarrow> 0 \<le> indexOf xs x"
  by (induction xs) (auto simp: Let_def)

lemma slice_from_indexOf:
  "x \<in> set xs \<Longrightarrow> slice_from xs (indexOf xs x) = dropWhile (\<lambda>y. y \<noteq> x) xs"
proof (induction xs)
  case Nil
  then show ?case by simp
next
  case (Cons y ys)
  show ?case
  proof (cases "y = x")
    case True
    then show ?thesis by (simp add: slice_from_def)
  next
    case False
    with Cons.prems have in_ys: "x \<in> set ys" by simp
    then have nonneg: "0 \<le> indexOf ys x" by (rule indexOf_present)
    then have "nat (indexOf ys x + 1) = Suc (nat (indexOf ys x))" by simp
    with False nonneg Cons.IH[OF in_ys] show ?thesis
      by (simp add: slice_from_def Let_def)
  qed
qed

lemma is_walk_snoc:
  "is_walk g (p @ [x]) = (is_walk g p \<and> (p \<noteq> [] \<longrightarrow> x \<in> set (get_or_empty g (last p))))"
  by (induction g p rule: is_walk.induct) auto

lemma is_walk_dropWhile: "is_walk g p \<Longrightarrow> is_walk g (dropWhile Q p)"
  by (induction g p rule: is_walk.induct) auto

lemma is_walk_nth:
  "is_walk g p = (\<forall>i. Suc i < length p \<longrightarrow> p ! Suc i \<in> set (get_or_empty g (p ! i)))"
proof (induction g p rule: is_walk.induct)
  case (3 g x y rest)
  show ?case
  proof
    assume a: "is_walk g (x # y # rest)"
    show "\<forall>i. Suc i < length (x # y # rest) \<longrightarrow>
            (x # y # rest) ! Suc i \<in> set (get_or_empty g ((x # y # rest) ! i))"
    proof (intro allI impI)
      fix i assume "Suc i < length (x # y # rest)"
      then show "(x # y # rest) ! Suc i \<in> set (get_or_empty g ((x # y # rest) ! i))"
        using a 3 by (cases i) auto
    qed
  next
    assume a: "\<forall>i. Suc i < length (x # y # rest) \<longrightarrow>
            (x # y # rest) ! Suc i \<in> set (get_or_empty g ((x # y # rest) ! i))"
    from a[rule_format, of 0] have e: "y \<in> set (get_or_empty g x)" by simp
    have "\<forall>i. Suc i < length (y # rest) \<longrightarrow>
            (y # rest) ! Suc i \<in> set (get_or_empty g ((y # rest) ! i))"
    proof (intro allI impI)
      fix i assume "Suc i < length (y # rest)"
      then show "(y # rest) ! Suc i \<in> set (get_or_empty g ((y # rest) ! i))"
        using a[rule_format, of "Suc i"] by simp
    qed
    with 3 e show "is_walk g (x # y # rest)" by simp
  qed
qed simp_all

lemma last_dropWhile_nonempty: "dropWhile Q p \<noteq> [] \<Longrightarrow> last (dropWhile Q p) = last p"
  by (induction p) (auto split: if_splits)

lemma back_edge_record_closed:
  assumes "is_walk g p" "d \<in> set p" "d \<in> set (get_or_empty g (last p))"
  shows "closed_walk g (slice_from p (indexOf p d) @ [d])"
proof -
  let ?s = "dropWhile (\<lambda>y. y \<noteq> d) p"
  have ne: "?s \<noteq> []" using assms(2) by (simp add: dropWhile_eq_Nil_conv)
  have hd: "hd ?s = d" using assms(2) hd_dropWhile[of "\<lambda>y. y \<noteq> d" p] ne by auto
  have lst: "last ?s = last p" using ne by (rule last_dropWhile_nonempty)
  have "is_walk g (?s @ [d])"
    using assms ne lst by (simp add: is_walk_snoc is_walk_dropWhile)
  moreover have "hd (?s @ [d]) = d" using ne hd by simp
  moreover have "2 \<le> length (?s @ [d])" using ne by (cases ?s) auto
  ultimately show ?thesis
    using assms(2) by (simp add: closed_walk_def slice_from_indexOf)
qed

lemma dfs_inv_preserved:
  "dfs_inv g st \<Longrightarrow> node \<notin> visited st \<Longrightarrow>
     (path st \<noteq> [] \<longrightarrow> node \<in> set (get_or_empty g (last (path st)))) \<Longrightarrow>
     dfs_inv g (detectCycle g node st) \<and> path (detectCycle g node st) = path st"
  "dfs_inv g st \<Longrightarrow> path st \<noteq> [] \<Longrightarrow> set ds \<subseteq> set (get_or_empty g (last (path st))) \<Longrightarrow>
     dfs_inv g (detectCycle_for g ds st) \<and> path (detectCycle_for g ds st) = path st"
proof (induction g node st and g ds st rule: detectCycle_detectCycle_for.induct)
  case (1 g node st)
  let ?st1 = "st\<lparr>visited := insert node (visited st),
                  recursionStack := insert node (recursionStack st),
                  path := path st @ [node]\<rparr>"
  let ?st2 = "detectCycle_for g (get_or_empty g node) ?st1"
  have inv1: "dfs_inv g ?st1"
    using "1.prems" by (auto simp: dfs_inv_def is_walk_snoc)
  have "dfs_inv g ?st2 \<and> path ?st2 = path ?st1"
    by (rule "1.IH"[OF refl inv1]) simp_all
  then have inv2: "dfs_inv g ?st2" and p2: "path ?st2 = path st @ [node]" by simp_all
  have notin: "node \<notin> set (path st)" using "1.prems" by (auto simp: dfs_inv_def)
  have "dfs_inv g (?st2\<lparr>path := butlast (path ?st2),
                         recursionStack := recursionStack ?st2 - {node}\<rparr>)"
    using inv2 p2 notin unfolding dfs_inv_def by (auto simp: is_walk_snoc)
  then show ?case using p2 by (simp add: Let_def)
next
  case (2 g st)
  then show ?case by simp
next
  case (3 g dependency rest st)
  show ?case
  proof (cases "dependency \<in> recursionStack st")
    case True
    let ?st' = "st\<lparr>cycles := cycles st @
             [slice_from (path st) (indexOf (path st) dependency) @ [dependency]]\<rparr>"
    have "closed_walk g (slice_from (path st) (indexOf (path st) dependency) @ [dependency])"
      using True "3.prems" by (intro back_edge_record_closed) (auto simp: dfs_inv_def)
    then have "dfs_inv g ?st'" using "3.prems"(1) by (auto simp: dfs_inv_def)
    then have "dfs_inv g (detectCycle_for g rest ?st') \<and>
               path (detectCycle_for g rest ?st') = path ?st'"
      using "3.prems" by (intro "3.IH"(1)[OF True]) auto
    then show ?thesis using True by simp
  next
    case False
    show ?thesis
    proof (cases "dependency \<notin> visited st")
      case True
      have a: "dfs_inv g (detectCycle g dependency st) \<and>
               path (detectCycle g dependency st) = path st"
        using "3.prems" True by (intro "3.IH"(2)[OF False True]) auto
      have "dfs_inv g (detectCycle_for g rest (detectCycle g dependency st)) \<and>
            path (detectCycle_for g rest (detectCycle g dependency st)) =
              path (detectCycle g dependency st)"
        using a "3.prems" by (intro "3.IH"(3)[OF False True]) auto
      then show ?thesis using False True a by simp
    next
      case nv: False
      have "dfs_inv g (detectCycle_for g rest st) \<and> path (detectCycle_for g rest st) = path st"
        using "3.prems" by (intro "3.IH"(4)[OF False nv]) auto
      then show ?thesis using False nv by simp
    qed
  qed
qed

lemma roots_for_inv:
  "dfs_inv g st \<Longrightarrow> path st = [] \<Longrightarrow>
     dfs_inv g (roots_for g nodes st) \<and> path (roots_for g nodes st) = []"
proof (induction nodes arbitrary: st)
  case Nil
  then show ?case by simp
next
  case (Cons node nodes)
  show ?case
  proof (cases "node \<in> visited st")
    case True
    then show ?thesis using Cons by simp
  next
    case False
    have eq: "st\<lparr>path := []\<rparr> = st" using Cons.prems(2) by simp
    have "dfs_inv g (detectCycle g node st) \<and> path (detectCycle g node st) = path st"
      using Cons.prems False by (intro dfs_inv_preserved(1)) auto
    then show ?thesis using Cons.IH[of "detectCycle g node st"] Cons.prems(2) False eq by simp
  qed
qed

lemma findCircularDependencies_closed_walks:
  "c \<in> set (findCircularDependencies g) \<Longrightarrow> closed_walk g c"
proof -
  let ?init = "\<lparr>visited = {}, recursionStack = {}, path = [], cycles = []\<rparr>"
  have "dfs_inv g ?init" by (simp add: dfs_inv_def)
  then have "dfs_inv g (roots_for g (allNodes g) ?init)"
    using roots_for_inv[of g ?init "allNodes g"] by simp
  then show "c \<in> set (findCircularDependencies g) \<Longrightarrow> closed_walk g c"
    by (auto simp: findCircularDependencies_def dfs_inv_def list_all_iff)
qed

lemma cycles_prefix:
  "prefix (cycles st) (cycles (detectCycle g node st))"
  "prefix (cycles st) (cycles (detectCycle_for g ds st))"
proof (induction g node st and g ds st rule: detectCycle_detectCycle_for.induct)
  case (1 g node st)
  then show ?case by (simp add: Let_def)
next
  case (2 g st)
  then show ?case by simp
next
  case (3 g dependency rest st)
  show ?case
  proof (cases "dependency \<in> recursionStack st")
    case True
    have "prefix (cycles st) (cycles st @
             [slice_from (path st) (indexOf (path st) dependency) @ [dependency]])" by simp
    then show ?thesis using "3.IH"(1)[OF True] True by (auto dest: append_prefixD)
  next
    case False
    then show ?thesis using 3 by (auto intro: prefix_order.trans)
  qed
qed

lemma closed_walk_trancl:
  assumes "closed_walk g p" shows "(hd p, hd p) \<in> (edges g)\<^sup>+"
proof -
  have walk: "is_walk g (x # xs) \<Longrightarrow> xs \<noteq> [] \<Longrightarrow> (x, last xs) \<in> (edges g)\<^sup>+" for x xs
  proof (induction xs arbitrary: x)
    case Nil
    then show ?case by simp
  next
    case (Cons y ys)
    then have e: "(x, y) \<in> edges g" by (simp add: edges_def)
    show ?case
    proof (cases ys)
      case Nil
      then show ?thesis using e by auto
    next
      case (Cons z zs)
      then have "(y, last ys) \<in> (edges g)\<^sup>+" using Cons.prems Cons.IH[of y] by simp
      then show ?thesis using e Cons by (auto intro: trancl_into_trancl2)
    qed
  qed
  obtain x xs where p: "p = x # xs" "xs \<noteq> []"
    using assms by (cases p; cases "tl p") (auto simp: closed_walk_def)
  from assms p have "is_walk g (x # xs)" and "last xs = x" by (auto simp: closed_walk_def)
  with walk[of x xs] p have "(x, x) \<in> (edges g)\<^sup>+" by simp
  then show ?thesis using p by simp
qed

lemma trancl_closed_walk:
  assumes "(a, b) \<in> (edges g)\<^sup>+" shows "\<exists>p. is_walk g (a # p @ [b])"
  using assms
proof (induction rule: trancl_induct)
  case (base y)
  then have "is_walk g (a # [] @ [y])" by (simp add: edges_def)
  then show ?case by blast
next
  case (step y z)
  then obtain p where "is_walk g (a # p @ [y])" by blast
  then have "is_walk g ((a # p @ [y]) @ [z])" using step.hyps(2)
    by (subst is_walk_snoc) (simp add: edges_def)
  then have "is_walk g (a # (p @ [y]) @ [z])" by simp
  then show ?case by blast
qed

lemma no_closed_walk_iff_acyclic: "(\<forall>p. \<not> closed_walk g p) = acyclic (edges g)"
proof
  assume a: "\<forall>p. \<not> closed_walk g p"
  show "acyclic (edges g)"
    unfolding acyclic_def
  proof (intro allI notI)
    fix x assume "(x, x) \<in> (edges g)\<^sup>+"
    then obtain p where "is_walk g (x # p @ [x])" using trancl_closed_walk by blast
    then have "closed_walk g (x # p @ [x])" by (simp add: closed_walk_def)
    with a show False by blast
  qed
next
  assume "acyclic (edges g)"
  then show "\<forall>p. \<not> closed_walk g p"
    using closed_walk_trancl by (auto simp: acyclic_def)
qed

text \<open>
  Claim C10.  Every cycle record returned by the cycle detector is a closed walk in the
  input graph: the record is not empty, its first element is its last element, and every
  element after the first occurs in the edge list of the element before it.
\<close>

theorem cycle_record_is_closed_walk:
  "c \<in> set (findCircularDependencies g) \<Longrightarrow>
     c \<noteq> [] \<and> hd c = last c \<and>
     (\<forall>i. Suc i < length c \<longrightarrow> c ! Suc i \<in> set (get_or_empty g (c ! i)))"
  using findCircularDependencies_closed_walks[of c g] is_walk_nth[of g c]
  by (auto simp: closed_walk_def)

theorem cycle_record_is_closed_walk_witness:
  "[''A'', ''B'', ''A''] \<in> set (findCircularDependencies [(''A'', [''B'']), (''B'', [''A''])]) \<and>
   hd [''A'', ''B'', ''A''] = last [''A'', ''B'', ''A''] \<and>
   [''A'', ''B'', ''A''] ! 1
     \<in> set (get_or_empty [(''A'', [''B'']), (''B'', [''A''])] ([''A'', ''B'', ''A''] ! 0)) \<and>
   [''A'', ''B'', ''A''] ! 2
     \<in> set (get_or_empty [(''A'', [''B'']), (''B'', [''A''])] ([''A'', ''B'', ''A''] ! 1))"
proof -
  let ?g = "[(''A'', [''B'']), (''B'', [''A''])]"
  let ?c = "[''A'', ''B'', ''A'']"
  have h: "?c \<in> set (findCircularDependencies ?g)"
    by code_simp
  note t = cycle_record_is_closed_walk[OF h]
  from t have ends: "hd ?c = last ?c" by blast
  from t have steps: "\<forall>i. Suc i < length ?c \<longrightarrow> ?c ! Suc i \<in> set (get_or_empty ?g (?c ! i))"
    by blast
  have e0: "?c ! 1 \<in> set (get_or_empty ?g (?c ! 0))"
    using steps[rule_format, of 0] by simp
  have e1: "?c ! 2 \<in> set (get_or_empty ?g (?c ! 1))"
    using steps[rule_format, of 1] by (simp add: numeral_2_eq_2)
  show ?thesis using h ends e0 e1 by blast
qed

text \<open>
  Claim C7.  For a dependency graph with no closed walk through its edges the cycle
  detector returns the empty list.  By \<open>no_closed_walk_iff_acyclic\<close> the hypothesis is
  the same as \<^term>\<open>acyclic (edges g)\<close>.
\<close>

theorem acyclic_graph_has_no_cycle_records:
  "\<forall>p. \<not> closed_walk g p \<Longrightarrow> findCircularDependencies g = []"
proof -
  assume a: "\<forall>p. \<not> closed_walk g p"
  have "c \<notin> set (findCircularDependencies g)" for c
    using a findCircularDependencies_closed_walks[of c g] by blast
  then show ?thesis by (cases "findCircularDependencies g") auto
qed

theorem acyclic_graph_has_no_cycle_records_witness:
  "(\<forall>p. \<not> closed_walk [(''A'', [''B''])] p) \<and> findCircularDependencies [(''A'', [''B''])] = []"
proof -
  have e: "edges [(''A'', [''B''])] = {(''A'', ''B'')}"
    by (auto simp: edges_def get_or_empty_def split: if_splits)
  have h: "\<forall>p. \<not> closed_walk [(''A'', [''B''])] p"
    unfolding no_closed_walk_iff_acyclic e by (simp add: acyclic_insert) (simp add: acyclic_def)
  show ?thesis using h acyclic_graph_has_no_cycle_records[OF h] by simp
qed

text \<open>
  Claim C3.  When the loop of \<open>detectCycle\<close> meets a dependency that is on the recursion
  stack (in every state the traversal reaches the stack holds exactly the nodes of the
  open path, see \<open>dfs_inv_preserved\<close>), it appends exactly one record and goes on with
  the remaining dependencies without recursing: the record is the suffix of the open path
  from the first occurrence of that dependency, followed by the dependency again.  The
  record is never removed or merged afterwards: the records present after it was appended
  are a prefix of everything the loop returns.  Nothing is deduplicated: a graph in which
  \<open>B\<close> imports \<open>A\<close> twice reports the cycle \<open>A, B, A\<close> twice, once for each back edge.
\<close>

theorem back_edge_emits_one_record:
  assumes "dependency \<in> recursionStack st" and "recursionStack st = set (path st)"
  shows "detectCycle_for g (dependency # rest) st =
           detectCycle_for g rest
             (st\<lparr>cycles := cycles st @
                [dropWhile (\<lambda>n. n \<noteq> dependency) (path st) @ [dependency]]\<rparr>) \<and>
         detectCycle_for g [dependency] st =
           st\<lparr>cycles := cycles st @
                [dropWhile (\<lambda>n. n \<noteq> dependency) (path st) @ [dependency]]\<rparr> \<and>
         prefix (cycles st @ [dropWhile (\<lambda>n. n \<noteq> dependency) (path st) @ [dependency]])
                (cycles (detectCycle_for g (dependency # rest) st)) \<and>
         findCircularDependencies [(''A'', [''B'']), (''B'', [''A'', ''A''])] =
           [[''A'', ''B'', ''A''], [''A'', ''B'', ''A'']]"
proof -
  let ?r = "dropWhile (\<lambda>n. n \<noteq> dependency) (path st) @ [dependency]"
  have s: "slice_from (path st) (indexOf (path st) dependency) @ [dependency] = ?r"
    using assms by (simp add: slice_from_indexOf)
  have step: "detectCycle_for g (dependency # rest) st =
           detectCycle_for g rest (st\<lparr>cycles := cycles st @ [?r]\<rparr>)" for rest
    using assms(1) s by simp
  have "prefix (cycles (st\<lparr>cycles := cycles st @ [?r]\<rparr>))
          (cycles (detectCycle_for g rest (st\<lparr>cycles := cycles st @ [?r]\<rparr>)))"
    by (rule cycles_prefix)
  then have p: "prefix (cycles st @ [?r]) (cycles (detectCycle_for g (dependency # rest) st))"
    using step by simp
  have ex: "findCircularDependencies [(''A'', [''B'']), (''B'', [''A'', ''A''])] =
           [[''A'', ''B'', ''A''], [''A'', ''B'', ''A'']]"
    by code_simp
  show ?thesis using step[of rest] step[of "[]"] p ex by simp
qed

theorem back_edge_emits_one_record_witness:
  "''A'' \<in> recursionStack \<lparr>visited = {''A'', ''B''}, recursionStack = {''A'', ''B''}, path = [''A'', ''B''], cycles = []\<rparr> \<and>
   detectCycle_for [(''A'', [''B'']), (''B'', [''A''])] [''A'']
      \<lparr>visited = {''A'', ''B''}, recursionStack = {''A'', ''B''}, path = [''A'', ''B''], cycles = []\<rparr> =
      \<lparr>visited = {''A'', ''B''}, recursionStack = {''A'', ''B''}, path = [''A'', ''B''],
       cycles = [[''A'', ''B'', ''A'']]\<rparr>"
proof -
  let ?st = "\<lparr>visited = {''A'', ''B''}, recursionStack = {''A'', ''B''}, path = [''A'', ''B''], cycles = []\<rparr>"
  have h1: "''A'' \<in> recursionStack ?st" by simp
  have h2: "recursionStack ?st = set (path ?st)" by auto
  show ?thesis
    using h1 back_edge_emits_one_record[OF h1 h2, of "[(''A'', [''B'']), (''B'', [''A''])]" "[]"]
    by simp
qed

section \<open>Properties of the hub detector\<close>

lemma push_keys: "fst ` set (push_importer i m acc) = insert m (fst ` set acc)"
  by (induction i m acc rule: push_importer.induct) auto

lemma push_wf: "wf_incoming acc \<Longrightarrow> wf_incoming (push_importer i m acc)"
proof (induction i m acc rule: push_importer.induct)
  case (1 i m)
  then show ?case by (simp add: wf_incoming_def)
next
  case (2 i m k importers rest)
  then show ?case by (auto simp: wf_incoming_def push_keys)
qed

lemma push_lookup:
  "lookup (push_importer i m acc) m' = lookup acc m' @ (if m' = m then [i] else [])"
  by (induction i m acc rule: push_importer.induct) (auto simp: lookup_def)

lemma inner_wf: "wf_incoming acc \<Longrightarrow> wf_incoming (fold (push_importer i) deps acc)"
  by (induction deps arbitrary: acc) (auto simp: push_wf)

lemma inner_lookup:
  "lookup (fold (push_importer i) deps acc) m =
     lookup acc m @ [i. d \<leftarrow> deps, d = m]"
  by (induction deps arbitrary: acc) (auto simp: push_lookup)

lemma outer_wf:
  "wf_incoming acc \<Longrightarrow>
   wf_incoming (fold (\<lambda>(importer, dependencies) acc.
      fold (\<lambda>importedModule acc'. push_importer importer importedModule acc') dependencies acc) g acc)"
  by (induction g arbitrary: acc) (auto simp: inner_wf)

lemma outer_lookup:
  "lookup (fold (\<lambda>(importer, dependencies) acc.
      fold (\<lambda>importedModule acc'. push_importer importer importedModule acc') dependencies acc) g acc) m
   = lookup acc m @ importers_of g m"
  by (induction g arbitrary: acc) (auto simp: inner_lookup importers_of_def)

lemma incomingMap_wf: "wf_incoming (incomingMap g)"
  unfolding incomingMap_def by (rule outer_wf) (simp add: wf_incoming_def)

lemma incomingMap_lookup: "lookup (incomingMap g) m = importers_of g m"
  unfolding incomingMap_def by (subst outer_lookup) (simp add: lookup_def)

lemma incomingMap_entries:
  "((m, imps) \<in> set (incomingMap g)) = (imps = importers_of g m \<and> imps \<noteq> [])"
proof
  assume a: "(m, imps) \<in> set (incomingMap g)"
  then have "map_of (incomingMap g) m = Some imps"
    using incomingMap_wf[of g] by (simp add: wf_incoming_def)
  then have "lookup (incomingMap g) m = imps" by (simp add: lookup_def)
  moreover have "imps \<noteq> []" using a incomingMap_wf[of g] by (force simp: wf_incoming_def)
  ultimately show "imps = importers_of g m \<and> imps \<noteq> []" by (simp add: incomingMap_lookup)
next
  assume a: "imps = importers_of g m \<and> imps \<noteq> []"
  then have "lookup (incomingMap g) m \<noteq> []" unfolding incomingMap_lookup by blast
  then obtain v where v: "map_of (incomingMap g) m = Some v"
    by (auto simp: lookup_def split: option.splits)
  then have "lookup (incomingMap g) m = v" by (simp add: lookup_def)
  then have "v = imps" using a by (simp add: incomingMap_lookup)
  with v show "(m, imps) \<in> set (incomingMap g)" by (auto dest: map_of_SomeD)
qed

lemma hubs_set:
  "set (findTightlyCoupledModules g t) =
     {\<lparr>module = m, importedBy = importers_of g m\<rparr> | m.
        importers_of g m \<noteq> [] \<and> t \<le> int (length (importers_of g m))}"
  by (auto simp: findTightlyCoupledModules_def incomingMap_entries)

lemma hubs_distinct: "distinct (map module (findTightlyCoupledModules g t))"
proof -
  define xs where "xs = map (\<lambda>(m, imps). \<lparr>module = m, importedBy = imps\<rparr>)
          (filter (\<lambda>(m, imps). t \<le> int (length imps)) (incomingMap g))"
  have f: "module \<circ> (\<lambda>(m, imps). \<lparr>module = m, importedBy = imps\<rparr>) = fst"
    by (auto simp: fun_eq_iff)
  have "distinct (map fst (filter (\<lambda>(m, imps). t \<le> int (length imps)) (incomingMap g)))"
    using incomingMap_wf[of g] by (simp add: wf_incoming_def distinct_map_filter)
  then have "distinct (map module xs)" unfolding xs_def by (simp add: f)
  then have "distinct xs \<and> inj_on module (set xs)" by (simp only: distinct_map)
  then have "distinct (map module (sort_key (\<lambda>h. - int (length (importedBy h))) xs))"
    by (simp add: distinct_map)
  then show ?thesis unfolding findTightlyCoupledModules_def xs_def by simp
qed

text \<open>
  Claim C4.  For the graph \<open>A \<rightarrow> B, A \<rightarrow> C, D \<rightarrow> B, E \<rightarrow> B\<close> the hub detector with
  threshold 3 returns exactly one record, module \<open>B\<close> with the importers \<open>A, D, E\<close>, and
  with threshold 4 it returns none.  In general its records are exactly the modules that
  have an importer list of length at least the threshold, each once, with the importer
  list that one pass over all edges builds.
\<close>

theorem hub_detector_selects_by_threshold:
  "findTightlyCoupledModules [(''A'', [''B'', ''C'']), (''D'', [''B'']), (''E'', [''B''])] 3 =
     [\<lparr>module = ''B'', importedBy = [''A'', ''D'', ''E'']\<rparr>] \<and>
   findTightlyCoupledModules [(''A'', [''B'', ''C'']), (''D'', [''B'']), (''E'', [''B''])] 4 = [] \<and>
   set (findTightlyCoupledModules g t) =
     {\<lparr>module = m, importedBy = importers_of g m\<rparr> | m.
        importers_of g m \<noteq> [] \<and> t \<le> int (length (importers_of g m))} \<and>
   distinct (map module (findTightlyCoupledModules g t))"
proof -
  have a: "findTightlyCoupledModules [(''A'', [''B'', ''C'']), (''D'', [''B'']), (''E'', [''B''])] 3 =
     [\<lparr>module = ''B'', importedBy = [''A'', ''D'', ''E'']\<rparr>]"
    by code_simp
  have b: "findTightlyCoupledModules [(''A'', [''B'', ''C'']), (''D'', [''B'']), (''E'', [''B''])] 4 = []"
    by code_simp
  show ?thesis using a b hubs_set[of g t] hubs_distinct[of g t] by blast
qed

section \<open>Properties of the graph builder\<close>



lemma replace_backslashes_no_backslash: "backslash \<notin> set (replace_backslashes s)"
  by (auto simp: replace_backslashes_def backslash_def)

lemma map_set_keys: "fst ` set (map_set k v m) = insert k (fst ` set m)"
  by (induction k v m rule: map_set.induct) auto

lemma files_loop_keys:
  "fst ` set (files_loop P files m) \<subseteq>
     fst ` set m \<union> replace_backslashes ` fst ` set files"
proof (induction P files m rule: files_loop.induct)
  case (1 P dependencyMap)
  then show ?case by simp
next
  case (2 P relativeFilePath content files dependencyMap)
  show ?case
  proof (cases content)
    case None
    then show ?thesis using 2 by auto
  next
    case (Some matches)
    then show ?thesis using "2.IH"(2)[OF Some] by (auto simp: map_set_keys)
  qed
qed

lemma keys_use_forward_slashes:
  "k \<in> fst ` set (parseDependencies P files) \<Longrightarrow> backslash \<notin> set k"
  using files_loop_keys[of P "filter (\<lambda>(f, content). f \<notin> set (map (normalize P) toolFiles)) files" "[]"]
    replace_backslashes_no_backslash
  by (auto simp: parseDependencies_def Let_def)

text \<open>
  Claim C6.  The claim is that every identifier in the graph, key or edge target, is
  written with forward slashes on every host.  The keys are (\<open>keys_use_forward_slashes\<close>
  above), but the edge targets are stored as \<^verbatim>\<open>path.normalize\<close> returns them: on a
  Windows host the file \<^verbatim>\<open>src\core\server.ts\<close>, which is not one of the tool's own files
  and imports \<^verbatim>\<open>./parser\<close>, gets the key \<^verbatim>\<open>src/core/server.ts\<close> and the edge target
  \<^verbatim>\<open>src\core\parser.ts\<close>.  On a POSIX host the same file gets \<^verbatim>\<open>src/core/parser.ts\<close>.
  (The file \<^verbatim>\<open>src\core\parser.ts\<close> itself is a tool file and gets no entry.)
\<close>

theorem win32_edge_target_keeps_backslashes:
  "parseDependencies (node_path Win32)
     [(''src'' @ [backslash] @ ''core'' @ [backslash] @ ''server.ts'', Some [''./parser''])] =
     [(''src/core/server.ts'', [''src'' @ [backslash] @ ''core'' @ [backslash] @ ''parser.ts''])] \<and>
   backslash \<in> set (''src'' @ [backslash] @ ''core'' @ [backslash] @ ''parser.ts'') \<and>
   parseDependencies (node_path Posix) [(''src/core/server.ts'', Some [''./parser''])] =
     [(''src/core/server.ts'', [''src/core/parser.ts''])] \<and>
   parseDependencies (node_path Win32)
     [(''src'' @ [backslash] @ ''core'' @ [backslash] @ ''parser.ts'', Some [''./utils''])] = []"
proof -
  have a: "parseDependencies (node_path Win32)
     [(''src'' @ [backslash] @ ''core'' @ [backslash] @ ''server.ts'', Some [''./parser''])] =
     [(''src/core/server.ts'', [''src'' @ [backslash] @ ''core'' @ [backslash] @ ''parser.ts''])]"
    by code_simp
  have b: "parseDependencies (node_path Posix) [(''src/core/server.ts'', Some [''./parser''])] =
     [(''src/core/server.ts'', [''src/core/parser.ts''])]"
    by code_simp
  have c: "parseDependencies (node_path Win32)
     [(''src'' @ [backslash] @ ''core'' @ [backslash] @ ''parser.ts'', Some [''./utils''])] = []"
    by code_simp
  show ?thesis using a b c by simp
qed

section \<open>Properties of the analysis orchestrator\<close>

lemmas segs = catch_finally_def runFullAnalysis_call_def runFullAnalysis_poll_def
  runFullAnalysis_parsed_def runFullAnalysis_analyzed_def

lemma filter_update_len:
  "i < length xs \<Longrightarrow>
     length (filter P (xs[i := y])) + (if P (xs ! i) then 1 else 0) =
     length (filter P xs) + (if P y then 1 else 0)"
proof (induction xs arbitrary: i)
  case Nil
  then show ?case by simp
next
  case (Cons x xs)
  then show ?case by (cases i) auto
qed

lemma run_Nil [simp]: "run [] s = s"
  by (simp add: run_def)

lemma run_Cons [simp]: "run (e # evs) s = run evs (step e s)"
  by (simp add: run_def)

lemma run_append: "run (xs @ ys) s = run ys (run xs s)"
  by (simp add: run_def)

lemma step_exited: "exited s \<Longrightarrow> step e s = s"
  by (simp add: step_def)

lemma run_exited: "exited s \<Longrightarrow> run evs s = s"
  by (induction evs) (simp_all add: step_exited)

lemma pipeline_running:
  assumes "single_flight s" "i < length (calls s)" "in_pipeline (calls s ! i)"
  shows "isAnalysisRunning s"
proof (rule ccontr)
  assume "\<not> isAnalysisRunning s"
  then have "filter in_pipeline (calls s) = []" using assms(1) by (simp add: single_flight_def)
  then have "\<not> in_pipeline (calls s ! i)"
    using assms(2) nth_mem[of i "calls s"] by (simp add: filter_empty_conv)
  with assms(3) show False by simp
qed

lemma dispatch_single_flight: "single_flight s \<Longrightarrow> single_flight (dispatch e s)"
proof (cases e)
  case Call
  assume "single_flight s"
  then show ?thesis using Call by (auto simp: single_flight_def segs)
next
  case (ParseSettled i outcome)
  assume sf: "single_flight s"
  show ?thesis
  proof (cases "i < length (calls s) \<and> calls s ! i = AwaitingParse")
    case True
    then have run: "isAnalysisRunning s" using sf pipeline_running[of s i] by simp
    show ?thesis using True sf run ParseSettled
      filter_update_len[of i "calls s" in_pipeline "Rejected m" for m]
      filter_update_len[of i "calls s" in_pipeline "AwaitingAnalyses d" for d]
      by (auto simp: single_flight_def segs split: sum.splits)
  next
    case False
    then show ?thesis using sf ParseSettled by auto
  qed
next
  case (AnalysesSettled i outcome now)
  assume sf: "single_flight s"
  show ?thesis
  proof (cases "i < length (calls s) \<and> in_pipeline (calls s ! i)")
    case True
    then have run: "isAnalysisRunning s" using sf pipeline_running[of s i] by simp
    show ?thesis using True sf run AnalysesSettled
      filter_update_len[of i "calls s" in_pipeline "Rejected m" for m]
      filter_update_len[of i "calls s" in_pipeline "Resolved r" for r]
      by (auto simp: single_flight_def segs Let_def split: sum.splits call.splits option.splits)
  next
    case False
    then show ?thesis using sf AnalysesSettled by (auto split: call.splits)
  qed
next
  case (Tick i)
  assume sf: "single_flight s"
  show ?thesis
  proof (cases "i < length (calls s) \<and> calls s ! i = Waiting")
    case True
    then show ?thesis using sf Tick filter_update_len[of i "calls s" in_pipeline "Resolved r" for r]
      by (auto simp: single_flight_def segs split: option.splits)
  next
    case False
    then show ?thesis using sf Tick by auto
  qed
qed

lemma step_single_flight: "single_flight s \<Longrightarrow> single_flight (step e s)"
  by (simp add: step_def dispatch_single_flight)

lemma run_single_flight: "single_flight s \<Longrightarrow> single_flight (run evs s)"
  by (induction evs arbitrary: s) (auto simp: step_single_flight)


lemma pipeline_unique:
  assumes "single_flight s" "i < length (calls s)" "j < length (calls s)"
    and "in_pipeline (calls s ! i)" "in_pipeline (calls s ! j)"
  shows "j = i"
proof (rule ccontr)
  assume ne: "j \<noteq> i"
  have "isAnalysisRunning s" using assms(1,2,4) by (rule pipeline_running)
  then have one: "length (filter in_pipeline (calls s)) = 1"
    using assms(1) by (simp add: single_flight_def)
  have "length (filter in_pipeline ((calls s)[i := Waiting])) = 0"
    using filter_update_len[of i "calls s" in_pipeline Waiting] assms(2,4) one by simp
  then have "\<not> in_pipeline ((calls s)[i := Waiting] ! j)"
    using assms(3) nth_mem[of j "(calls s)[i := Waiting]"] by (simp add: filter_empty_conv)
  then show False using ne assms(5) by simp
qed

lemma dispatch_length: "length (calls s) \<le> length (calls (dispatch e s))"
  by (cases e) (auto simp: segs Let_def split: option.splits sum.splits call.splits)

lemma step_length: "length (calls s) \<le> length (calls (step e s))"
  by (simp add: step_def dispatch_length)

lemma run_length: "length (calls s) \<le> length (calls (run evs s))"
proof (induction evs arbitrary: s)
  case Nil
  then show ?case by simp
next
  case (Cons e evs)
  have "length (calls s) \<le> length (calls (step e s))" by (rule step_length)
  also have "\<dots> \<le> length (calls (run evs (step e s)))" by (rule Cons.IH)
  finally show ?case by simp
qed

lemma dispatch_pipeline_back:
  "i < length (calls s) \<Longrightarrow> in_pipeline (calls (dispatch e s) ! i) \<Longrightarrow> in_pipeline (calls s ! i)"
  by (cases e)
     (auto simp: segs Let_def nth_append nth_list_update
           split: option.splits sum.splits call.splits if_splits)

lemma step_pipeline_back:
  "i < length (calls s) \<Longrightarrow> in_pipeline (calls (step e s) ! i) \<Longrightarrow> in_pipeline (calls s ! i)"
  by (cases "exited s") (auto simp: step_def dest: dispatch_pipeline_back)

lemma run_pipeline_back:
  "i < length (calls s) \<Longrightarrow> in_pipeline (calls (run evs s) ! i) \<Longrightarrow> in_pipeline (calls s ! i)"
proof (induction evs arbitrary: s)
  case Nil
  then show ?case by simp
next
  case (Cons e evs)
  have "i < length (calls (step e s))" using Cons.prems(1) step_length[of s e] by simp
  then have "in_pipeline (calls (step e s) ! i)" using Cons by simp
  then show ?case using Cons.prems(1) by (rule step_pipeline_back[rotated])
qed

lemma dispatch_settled:
  "i < length (calls s) \<Longrightarrow> calls s ! i = Resolved r \<Longrightarrow> calls (dispatch e s) ! i = Resolved r"
  "i < length (calls s) \<Longrightarrow> calls s ! i = Rejected m \<Longrightarrow> calls (dispatch e s) ! i = Rejected m"
  by (cases e; auto simp: segs Let_def nth_append nth_list_update
           split: option.splits sum.splits call.splits)+

lemma step_settled:
  "i < length (calls s) \<Longrightarrow> calls s ! i = Resolved r \<Longrightarrow> calls (step e s) ! i = Resolved r"
  "i < length (calls s) \<Longrightarrow> calls s ! i = Rejected m \<Longrightarrow> calls (step e s) ! i = Rejected m"
  by (simp_all add: step_def dispatch_settled)

lemma run_settled:
  "i < length (calls s) \<Longrightarrow> calls s ! i = Resolved r \<Longrightarrow> calls (run evs s) ! i = Resolved r"
proof (induction evs arbitrary: s)
  case Nil
  then show ?case by simp
next
  case (Cons e evs)
  have "i < length (calls (step e s))" using Cons.prems(1) step_length[of s e] by simp
  moreover have "calls (step e s) ! i = Resolved r" using Cons.prems by (intro step_settled(1))
  ultimately show ?case using Cons.IH[of "step e s"] by simp
qed

lemma dispatch_in_flight:
  assumes "single_flight s" "i < length (calls s)" "in_pipeline (calls (dispatch e s) ! i)"
  shows "cachedAnalysis (dispatch e s) = cachedAnalysis s \<and> isAnalysisRunning (dispatch e s) \<and>
         exited (dispatch e s) = exited s \<and>
         (\<forall>w < length (calls s). calls s ! w = Waiting \<longrightarrow> calls (dispatch e s) ! w = Waiting)"
proof -
  have before: "in_pipeline (calls s ! i)" using assms(2,3) by (rule dispatch_pipeline_back)
  have running: "isAnalysisRunning s" using assms(1,2) before by (rule pipeline_running)
  show ?thesis
  proof (cases e)
    case Call
    then show ?thesis using running by (simp add: segs nth_append)
  next
    case (Tick w)
    then show ?thesis using running by (simp add: segs split: option.splits)
  next
    case (ParseSettled j outcome)
    show ?thesis
    proof (cases "j < length (calls s) \<and> calls s ! j = AwaitingParse")
      case True
      then have "j = i" using pipeline_unique[OF assms(1,2) _ before, of j] by simp
      then show ?thesis using True ParseSettled assms(2,3) running
        by (auto simp: segs nth_list_update split: sum.splits if_splits)
    next
      case False
      then show ?thesis using ParseSettled running by auto
    qed
  next
    case (AnalysesSettled j outcome now)
    show ?thesis
    proof (cases "j < length (calls s) \<and> in_pipeline (calls s ! j)")
      case True
      then have "j = i" using pipeline_unique[OF assms(1,2) _ before, of j] by simp
      then show ?thesis using True AnalysesSettled assms(2,3) running
        by (auto simp: segs Let_def nth_list_update
                 split: sum.splits option.splits call.splits if_splits)
    next
      case False
      then show ?thesis using AnalysesSettled running by (auto split: call.splits)
    qed
  qed
qed

lemma step_in_flight:
  assumes "single_flight s" "i < length (calls s)" "in_pipeline (calls (step e s) ! i)"
  shows "cachedAnalysis (step e s) = cachedAnalysis s \<and> isAnalysisRunning (step e s) \<and>
         exited (step e s) = exited s \<and>
         (\<forall>w < length (calls s). calls s ! w = Waiting \<longrightarrow> calls (step e s) ! w = Waiting)"
proof (cases "exited s")
  case True
  then have same: "step e s = s" by (rule step_exited)
  then have "isAnalysisRunning s" using assms pipeline_running[of s i] by simp
  then show ?thesis using same by simp
next
  case False
  then have "step e s = dispatch e s" by (simp add: step_def)
  then show ?thesis using dispatch_in_flight[OF assms(1,2), of e] assms(3) by simp
qed

lemma run_in_flight:
  assumes "single_flight s" "i < length (calls s)" "in_pipeline (calls (run evs s) ! i)"
  shows "cachedAnalysis (run evs s) = cachedAnalysis s \<and> isAnalysisRunning (run evs s) \<and>
         exited (run evs s) = exited s \<and>
         (\<forall>w < length (calls s). calls s ! w = Waiting \<longrightarrow> calls (run evs s) ! w = Waiting)"
  using assms
proof (induction evs arbitrary: s)
  case Nil
  then show ?case using pipeline_running[of s i] by simp
next
  case (Cons e evs)
  have len: "length (calls s) \<le> length (calls (step e s))" by (rule step_length)
  then have i': "i < length (calls (step e s))" using Cons.prems(2) by simp
  have sf': "single_flight (step e s)" using Cons.prems(1) by (rule step_single_flight)
  have later: "in_pipeline (calls (run evs (step e s)) ! i)" using Cons.prems(3) by simp
  have mid: "in_pipeline (calls (step e s) ! i)" using i' later by (rule run_pipeline_back)
  note a = step_in_flight[OF Cons.prems(1,2) mid]
  note b = Cons.IH[OF sf' i' later]
  show ?case using a b len by auto
qed

lemma dispatch_failure:
  assumes "i < length (calls s)" "settles e i (calls s ! i)" "failure e = Some msg"
    and "\<not> exited s"
  shows "calls (dispatch e s) ! i = Rejected msg \<and> cachedAnalysis (dispatch e s) = cachedAnalysis s \<and>
         \<not> isAnalysisRunning (dispatch e s) \<and> length (calls (dispatch e s)) = length (calls s) \<and>
         (\<forall>w < length (calls s). w \<noteq> i \<longrightarrow> calls (dispatch e s) ! w = calls s ! w) \<and>
         exited (dispatch e s) = (i = 0)"
proof (cases e)
  case (ParseSettled j outcome)
  then show ?thesis using assms
    by (cases "calls s ! i"; cases outcome) (auto simp: segs split: if_splits)
next
  case (AnalysesSettled j outcome now)
  then show ?thesis using assms
    by (cases "calls s ! i"; cases outcome) (auto simp: segs split: if_splits option.splits)
qed (use assms in auto)

lemma step_failure:
  assumes "i < length (calls s)" "settles e i (calls s ! i)" "failure e = Some msg"
    and "\<not> exited s"
  shows "calls (step e s) ! i = Rejected msg \<and> cachedAnalysis (step e s) = cachedAnalysis s \<and>
         \<not> isAnalysisRunning (step e s) \<and> length (calls (step e s)) = length (calls s) \<and>
         (\<forall>w < length (calls s). w \<noteq> i \<longrightarrow> calls (step e s) ! w = calls s ! w) \<and>
         exited (step e s) = (i = 0)"
  using dispatch_failure[OF assms] assms(4) by (simp add: step_def)

lemma idle_dispatch:
  assumes "single_flight s" "\<not> isAnalysisRunning s" "e \<noteq> Call" "\<not> exited s"
  shows "cachedAnalysis (dispatch e s) = cachedAnalysis s \<and> \<not> isAnalysisRunning (dispatch e s) \<and>
         \<not> exited (dispatch e s) \<and>
         length (calls (dispatch e s)) = length (calls s) \<and>
         (\<forall>w < length (calls s). calls s ! w = Waiting \<longrightarrow>
            calls (dispatch e s) ! w =
              (case cachedAnalysis s of
                 Some r \<Rightarrow> if e = Tick w then Resolved r else Waiting
               | None \<Rightarrow> Waiting))"
proof -
  have none: "\<not> in_pipeline (calls s ! j)" if "j < length (calls s)" for j
    using pipeline_running[OF assms(1) that] assms(2) by blast
  show ?thesis
  proof (cases e)
    case Call
    then show ?thesis using assms(3) by simp
  next
    case (Tick w)
    then show ?thesis using assms(2,4)
      by (auto simp: segs nth_list_update split: option.splits)
  next
    case (ParseSettled j outcome)
    then show ?thesis using none[of j] assms(2,4) by (auto split: option.splits)
  next
    case (AnalysesSettled j outcome now)
    then show ?thesis using none[of j] assms(2,4) by (auto split: option.splits call.splits)
  qed
qed

lemma idle_step:
  assumes "single_flight s" "\<not> isAnalysisRunning s" "e \<noteq> Call" "\<not> exited s"
  shows "cachedAnalysis (step e s) = cachedAnalysis s \<and> \<not> isAnalysisRunning (step e s) \<and>
         \<not> exited (step e s) \<and>
         length (calls (step e s)) = length (calls s) \<and>
         (\<forall>w < length (calls s). calls s ! w = Waiting \<longrightarrow>
            calls (step e s) ! w =
              (case cachedAnalysis s of
                 Some r \<Rightarrow> if e = Tick w then Resolved r else Waiting
               | None \<Rightarrow> Waiting))"
  using idle_dispatch[OF assms] assms(4) by (simp add: step_def)

lemma idle_run:
  assumes "single_flight s" "\<not> isAnalysisRunning s" "Call \<notin> set evs" "\<not> exited s"
  shows "cachedAnalysis (run evs s) = cachedAnalysis s \<and> \<not> isAnalysisRunning (run evs s) \<and>
         \<not> exited (run evs s) \<and>
         length (calls (run evs s)) = length (calls s) \<and>
         (\<forall>w < length (calls s). calls s ! w = Waiting \<longrightarrow>
            calls (run evs s) ! w =
              (case cachedAnalysis s of
                 Some r \<Rightarrow> if Tick w \<in> set evs then Resolved r else Waiting
               | None \<Rightarrow> Waiting))"
  using assms
proof (induction evs arbitrary: s)
  case Nil
  then show ?case by (simp split: option.splits)
next
  case (Cons e evs)
  have ne: "e \<noteq> Call" and rest: "Call \<notin> set evs" using Cons.prems(3) by auto
  note a = idle_step[OF Cons.prems(1,2) ne Cons.prems(4)]
  have sf': "single_flight (step e s)" using Cons.prems(1) by (rule step_single_flight)
  from a have idle': "\<not> isAnalysisRunning (step e s)" by simp
  from a have alive': "\<not> exited (step e s)" by simp
  note b = Cons.IH[OF sf' idle' rest alive']
  show ?case
  proof (intro conjI allI impI)
    show "cachedAnalysis (run (e # evs) s) = cachedAnalysis s" using a b by simp
    show "\<not> isAnalysisRunning (run (e # evs) s)" using b by simp
    show "\<not> exited (run (e # evs) s)" using b by simp
    show "length (calls (run (e # evs) s)) = length (calls s)" using a b by simp
  next
    fix w assume w: "w < length (calls s)" and wait: "calls s ! w = Waiting"
    from a w wait have now: "calls (step e s) ! w =
              (case cachedAnalysis s of
                 Some r \<Rightarrow> if e = Tick w then Resolved r else Waiting
               | None \<Rightarrow> Waiting)" by blast
    from a w have w': "w < length (calls (step e s))" by simp
    show "calls (run (e # evs) s) ! w =
            (case cachedAnalysis s of
               Some r \<Rightarrow> if Tick w \<in> set (e # evs) then Resolved r else Waiting
             | None \<Rightarrow> Waiting)"
    proof (cases "cachedAnalysis s")
      case None
      then show ?thesis using now b w' a by simp
    next
      case (Some r)
      show ?thesis
      proof (cases "e = Tick w")
        case True
        then have "calls (step e s) ! w = Resolved r" using now Some by simp
        then have "calls (run evs (step e s)) ! w = Resolved r"
          using w' by (intro run_settled)
        then show ?thesis using True Some by simp
      next
        case False
        then have "calls (step e s) ! w = Waiting" using now Some by simp
        then show ?thesis using b w' a Some False by auto
      qed
    qed
  qed
qed


lemma run_rejected:
  "i < length (calls s) \<Longrightarrow> calls s ! i = Rejected m \<Longrightarrow> calls (run evs s) ! i = Rejected m"
proof (induction evs arbitrary: s)
  case Nil
  then show ?case by simp
next
  case (Cons e evs)
  have "i < length (calls (step e s))" using Cons.prems(1) step_length[of s e] by simp
  moreover have "calls (step e s) ! i = Rejected m" using Cons.prems by (intro step_settled(2))
  ultimately show ?case using Cons.IH[of "step e s"] by simp
qed

lemma initial_single_flight: "single_flight (run evs initial_server)"
  by (rule run_single_flight) (simp add: single_flight_def initial_server_def)

lemma settles_in_pipeline: "settles e i c \<Longrightarrow> in_pipeline c"
  by (cases "(e, i, c)" rule: settles.cases) auto

lemma step_Call_idle:
  "\<not> isAnalysisRunning s \<Longrightarrow> \<not> exited s \<Longrightarrow>
     calls (step Call s) = calls s @ [AwaitingParse] \<and> isAnalysisRunning (step Call s) \<and>
     cachedAnalysis (step Call s) = cachedAnalysis s \<and> \<not> exited (step Call s)"
  by (simp add: step_def segs)

lemma step_Call_running:
  "isAnalysisRunning s \<Longrightarrow> \<not> exited s \<Longrightarrow>
     calls (step Call s) = calls s @ [Waiting] \<and> isAnalysisRunning (step Call s) \<and>
     cachedAnalysis (step Call s) = cachedAnalysis s \<and> \<not> exited (step Call s)"
  by (simp add: step_def segs)

lemma dispatch_cache_None_back:
  "cachedAnalysis (dispatch e s) = None \<Longrightarrow> cachedAnalysis s = None"
  by (cases e) (auto simp: segs Let_def split: option.splits sum.splits call.splits if_splits)

lemma cache_None_back: "cachedAnalysis (step e s) = None \<Longrightarrow> cachedAnalysis s = None"
  by (cases "exited s") (auto simp: step_def dest: dispatch_cache_None_back)

lemma run_cache_None_back: "cachedAnalysis (run evs s) = None \<Longrightarrow> cachedAnalysis s = None"
proof (induction evs arbitrary: s)
  case Nil
  then show ?case by simp
next
  case (Cons e evs)
  then have "cachedAnalysis (step e s) = None" by simp
  then show ?case by (rule cache_None_back)
qed

lemma dispatch_waiting:
  assumes "w < length (calls s)" "calls s ! w = Waiting"
  shows "calls (dispatch e s) ! w =
           (if e = Tick w \<and> \<not> isAnalysisRunning s then
              (case cachedAnalysis s of Some r \<Rightarrow> Resolved r | None \<Rightarrow> Waiting)
            else Waiting)"
proof (cases e)
  case Call
  then show ?thesis using assms by (simp add: segs nth_append)
next
  case (Tick j)
  then show ?thesis using assms by (auto simp: segs nth_list_update split: option.splits)
next
  case (ParseSettled j outcome)
  then show ?thesis using assms
    by (auto simp: segs nth_list_update split: sum.splits)
next
  case (AnalysesSettled j outcome now)
  then show ?thesis using assms
    by (auto simp: segs Let_def nth_list_update split: sum.splits option.splits call.splits)
qed

lemma step_waiting:
  assumes "w < length (calls s)" "calls s ! w = Waiting"
  shows "calls (step e s) ! w =
           (if e = Tick w \<and> \<not> isAnalysisRunning s \<and> \<not> exited s then
              (case cachedAnalysis s of Some r \<Rightarrow> Resolved r | None \<Rightarrow> Waiting)
            else Waiting)"
proof (cases "exited s")
  case True
  then show ?thesis using assms(2) by (simp add: step_def)
next
  case False
  then show ?thesis using dispatch_waiting[OF assms, of e] by (simp add: step_def)
qed

lemma run_waiting_outcome:
  "w < length (calls s) \<Longrightarrow> calls s ! w = Waiting \<Longrightarrow>
     calls (run evs s) ! w = Waiting \<or> (\<exists>r. calls (run evs s) ! w = Resolved r)"
proof (induction evs arbitrary: s)
  case Nil
  then show ?case by simp
next
  case (Cons e evs)
  have w': "w < length (calls (step e s))" using Cons.prems(1) step_length[of s e] by simp
  note now = step_waiting[OF Cons.prems, of e]
  show ?case
  proof (cases "calls (step e s) ! w = Waiting")
    case True
    then show ?thesis using Cons.IH[OF w'] by simp
  next
    case False
    then obtain r where "calls (step e s) ! w = Resolved r"
      using now by (auto split: if_splits option.splits)
    then have "calls (run evs (step e s)) ! w = Resolved r" using w' by (intro run_settled)
    then show ?thesis by simp
  qed
qed

lemma step_success:
  assumes "i < length (calls s)" "calls s ! i = AwaitingAnalyses dm" "\<not> exited s"
  shows "cachedAnalysis (step (AnalysesSettled i (Inr (Some llm)) now) s) =
           Some (make_report now llm dm) \<and>
         \<not> isAnalysisRunning (step (AnalysesSettled i (Inr (Some llm)) now) s) \<and>
         \<not> exited (step (AnalysesSettled i (Inr (Some llm)) now) s) \<and>
         length (calls (step (AnalysesSettled i (Inr (Some llm)) now) s)) = length (calls s) \<and>
         (\<forall>w < length (calls s). w \<noteq> i \<longrightarrow>
            calls (step (AnalysesSettled i (Inr (Some llm)) now) s) ! w = calls s ! w)"
  using assms by (simp add: step_def segs make_report_def Let_def)

subsection \<open>The life of the process\<close>

lemma lifecycle_initial: "lifecycle initial_server"
  by (simp add: lifecycle_def initial_server_def)

lemma list_all_waiting_update:
  "list_all (\<lambda>w. w = Waiting) ws \<Longrightarrow> ws ! j \<noteq> Waiting \<Longrightarrow> j < length ws \<Longrightarrow> False"
  by (auto simp: list_all_length)

lemma dispatch_lifecycle:
  assumes "lifecycle s" "\<not> exited s"
  shows "lifecycle (dispatch e s)"
proof (cases "calls s")
  case Nil
  then show ?thesis using assms
    by (cases e) (auto simp: lifecycle_def segs)
next
  case (Cons c ws)
  show ?thesis
  proof (cases c)
    case Waiting
    then show ?thesis using assms Cons by (simp add: lifecycle_def)
  next
    case (Rejected m)
    then show ?thesis using assms Cons by (simp add: lifecycle_def)
  next
    case (Resolved r)
    then have c0: "calls s ! 0 = Resolved r" and len: "0 < length (calls s)"
      using Cons by simp_all
    have head: "calls (dispatch e s) ! 0 = Resolved r" using len c0 by (rule dispatch_settled(1))
    have len': "0 < length (calls (dispatch e s))"
      by (rule less_le_trans[OF len dispatch_length])
    have nn: "cachedAnalysis s \<noteq> None"
      using assms(1) Cons Resolved by (simp add: lifecycle_def)
    have cache: "cachedAnalysis (dispatch e s) \<noteq> None"
    proof
      assume "cachedAnalysis (dispatch e s) = None"
      then have "cachedAnalysis s = None" by (rule dispatch_cache_None_back)
      with nn show False by simp
    qed
    have alive: "\<not> exited (dispatch e s)"
      using assms(2) Cons Resolved
      by (cases e)
         (auto simp: segs Let_def nth_Cons split: option.splits sum.splits call.splits nat.splits)
    obtain c' ws' where cs': "calls (dispatch e s) = c' # ws'"
      using len' by (cases "calls (dispatch e s)") auto
    then have "c' = Resolved r" using head by simp
    then show ?thesis using cs' cache alive by (simp add: lifecycle_def)
  next
    case AwaitingParse
    then have inv: "cachedAnalysis s = None" "isAnalysisRunning s"
      "list_all (\<lambda>w. w = Waiting) ws"
      using assms(1) Cons by (simp_all add: lifecycle_def)
    show ?thesis
    proof (cases e)
      case Call
      then show ?thesis using inv Cons AwaitingParse assms(2)
        by (simp add: lifecycle_def segs)
    next
      case (Tick j)
      then show ?thesis using inv Cons AwaitingParse assms(2)
        by (auto simp: lifecycle_def segs)
    next
      case (ParseSettled j outcome)
      show ?thesis
      proof (cases j)
        case 0
        then show ?thesis using ParseSettled inv Cons AwaitingParse assms(2)
          by (auto simp: lifecycle_def segs split: sum.splits)
      next
        case (Suc k)
        then have "dispatch e s = s"
          using ParseSettled inv(3) Cons by (auto simp: list_all_length)
        then show ?thesis using assms(1) by simp
      qed
    next
      case (AnalysesSettled j outcome now)
      show ?thesis
      proof (cases j)
        case 0
        then show ?thesis using AnalysesSettled Cons AwaitingParse assms(1) by simp
      next
        case (Suc k)
        then have "dispatch e s = s"
          using AnalysesSettled inv(3) Cons by (auto simp: list_all_length split: call.splits)
        then show ?thesis using assms(1) by simp
      qed
    qed
  next
    case (AwaitingAnalyses dm)
    then have inv: "cachedAnalysis s = None" "isAnalysisRunning s"
      "list_all (\<lambda>w. w = Waiting) ws"
      using assms(1) Cons by (simp_all add: lifecycle_def)
    show ?thesis
    proof (cases e)
      case Call
      then show ?thesis using inv Cons AwaitingAnalyses assms(2)
        by (simp add: lifecycle_def segs)
    next
      case (Tick j)
      then show ?thesis using inv Cons AwaitingAnalyses assms(2)
        by (auto simp: lifecycle_def segs)
    next
      case (ParseSettled j outcome)
      show ?thesis
      proof (cases j)
        case 0
        then show ?thesis using ParseSettled Cons AwaitingAnalyses assms(1) by simp
      next
        case (Suc k)
        then have "dispatch e s = s"
          using ParseSettled inv(3) Cons by (auto simp: list_all_length)
        then show ?thesis using assms(1) by simp
      qed
    next
      case (AnalysesSettled j outcome now)
      show ?thesis
      proof (cases j)
        case 0
        then show ?thesis using AnalysesSettled inv Cons AwaitingAnalyses assms(2)
          by (auto simp: lifecycle_def segs Let_def split: sum.splits option.splits)
      next
        case (Suc k)
        then have "dispatch e s = s"
          using AnalysesSettled inv(3) Cons by (auto simp: list_all_length split: call.splits)
        then show ?thesis using assms(1) by simp
      qed
    qed
  qed
qed

lemma step_lifecycle: "lifecycle s \<Longrightarrow> lifecycle (step e s)"
  by (cases "exited s") (simp_all add: step_def dispatch_lifecycle)

lemma run_lifecycle: "lifecycle s \<Longrightarrow> lifecycle (run evs s)"
  by (induction evs arbitrary: s) (auto simp: step_lifecycle)

lemma reachable_invariants:
  "single_flight (run pre initial_server) \<and> lifecycle (run pre initial_server)"
  using initial_single_flight[of pre] run_lifecycle[OF lifecycle_initial, of pre] by simp

lemma startup_run_is_call_0:
  assumes "lifecycle s" "\<not> exited s" "cachedAnalysis s = None"
    and "i < length (calls s)" "in_pipeline (calls s ! i)"
  shows "i = 0"
proof (cases "calls s")
  case Nil
  then show ?thesis using assms(4) by simp
next
  case (Cons c ws)
  have "list_all (\<lambda>w. w = Waiting) ws"
    using assms(1,2,3) Cons by (cases c) (simp_all add: lifecycle_def)
  then show ?thesis using assms(4,5) Cons
    by (cases i) (auto simp: list_all_length)
qed

lemma refresh_run_is_not_call_0:
  assumes "lifecycle s" "cachedAnalysis s \<noteq> None"
    and "i < length (calls s)" "in_pipeline (calls s ! i)"
  shows "i \<noteq> 0"
proof
  assume "i = 0"
  then obtain c ws where cs: "calls s = c # ws" and p: "in_pipeline c"
    using assms(3,4) by (cases "calls s") auto
  then show False using assms(1,2) by (cases c) (simp_all add: lifecycle_def)
qed

text \<open>
  Claim C1.  A run is started by a call in a state where no run is in flight.  Whatever
  happens while it is in flight (further calls, timers of waiting calls), when it fails
  (\<^verbatim>\<open>parseDependencies\<close> rejects or yields an empty graph, an analysis rejects or the
  external analyzer returns \<^verbatim>\<open>null\<close>) the call rejects with the message of that failure,
  the cache holds what it held before the run started, and \<^verbatim>\<open>GET /api/analysis\<close> returns
  the previously cached report if there was one.  The process ends only when the failed
  run is the start-up call.
\<close>

theorem failed_run_keeps_cached_report:
  assumes "single_flight s" and "\<not> isAnalysisRunning s" and "\<not> exited s"
    and "settles e (length (calls s)) (calls (run evs (step Call s)) ! length (calls s))"
    and "failure e = Some msg"
  shows "calls (step e (run evs (step Call s))) ! length (calls s) = Rejected msg \<and>
         cachedAnalysis (step e (run evs (step Call s))) = cachedAnalysis s \<and>
         get_analysis (step e (run evs (step Call s))) =
           (case cachedAnalysis s of Some report \<Rightarrow> Success report | None \<Rightarrow> RunOnDemand) \<and>
         exited (step e (run evs (step Call s))) = (length (calls s) = 0)"
proof -
  let ?i = "length (calls s)"
  let ?s1 = "step Call s"
  let ?sN = "run evs ?s1"
  note c = step_Call_idle[OF assms(2,3)]
  have sf1: "single_flight ?s1" using assms(1) by (rule step_single_flight)
  have i1: "?i < length (calls ?s1)" using c by simp
  have c1: "cachedAnalysis ?s1 = cachedAnalysis s" using c by simp
  have pipe: "in_pipeline (calls ?sN ! ?i)" using assms(4) by (rule settles_in_pipeline)
  note fl = run_in_flight[OF sf1 i1 pipe]
  have cN: "cachedAnalysis ?sN = cachedAnalysis s" using fl c1 by simp
  have aN: "\<not> exited ?sN" using fl c by simp
  have iN: "?i < length (calls ?sN)" using i1 run_length[of ?s1 evs] by simp
  note f = step_failure[OF iN assms(4,5) aN]
  from f have rej: "calls (step e ?sN) ! ?i = Rejected msg" by blast
  from f cN have cache: "cachedAnalysis (step e ?sN) = cachedAnalysis s" by simp
  from f have idle: "\<not> isAnalysisRunning (step e ?sN)" by blast
  from f have ex: "exited (step e ?sN) = (?i = 0)" by blast
  have "get_analysis (step e ?sN) =
           (case cachedAnalysis s of Some report \<Rightarrow> Success report | None \<Rightarrow> RunOnDemand)"
    using cache idle by (simp add: get_analysis_def split: option.splits)
  with rej cache ex show ?thesis by blast
qed

lemma serving_server_eq:
  "serving_server =
     \<lparr>cachedAnalysis = Some old_report, isAnalysisRunning = False,
      calls = [Resolved old_report], exited = False\<rparr>"
proof -
  have ne: "sample_graph \<noteq> []" by (simp add: sample_graph_def)
  show ?thesis
    using ne
    by (simp add: serving_server_def step_def segs initial_server_def old_report_def
          make_report_def Let_def)
qed

lemma refreshing_server_eq:
  "refreshing_server =
     \<lparr>cachedAnalysis = Some old_report, isAnalysisRunning = True,
      calls = [Resolved old_report, AwaitingAnalyses sample_graph, Waiting], exited = False\<rparr>"
proof -
  have ne: "sample_graph \<noteq> []" by (simp add: sample_graph_def)
  show ?thesis
    using ne by (simp add: refreshing_server_def serving_server_eq step_def segs)
qed

theorem failed_run_keeps_cached_report_witness:
  "single_flight serving_server \<and> \<not> isAnalysisRunning serving_server \<and>
   \<not> exited serving_server \<and> cachedAnalysis serving_server = Some old_report \<and>
   calls (step (AnalysesSettled 1 (Inr None) ''2025-01-02T00:00:00.000Z'')
            (run [Call, Tick 2, ParseSettled 1 (Inr sample_graph)]
               (step Call serving_server))) ! 1 = Rejected ''LLM analysis failed.'' \<and>
   get_analysis (step (AnalysesSettled 1 (Inr None) ''2025-01-02T00:00:00.000Z'')
            (run [Call, Tick 2, ParseSettled 1 (Inr sample_graph)]
               (step Call serving_server))) = Success old_report \<and>
   \<not> exited (step (AnalysesSettled 1 (Inr None) ''2025-01-02T00:00:00.000Z'')
            (run [Call, Tick 2, ParseSettled 1 (Inr sample_graph)]
               (step Call serving_server)))"
proof -
  let ?s = "serving_server"
  let ?evs = "[Call, Tick 2, ParseSettled 1 (Inr sample_graph)]"
  let ?e = "AnalysesSettled 1 (Inr None) ''2025-01-02T00:00:00.000Z''"
  have ne: "sample_graph \<noteq> []" by (simp add: sample_graph_def)
  have h1: "single_flight ?s" by (simp add: serving_server_eq single_flight_def)
  have h2: "\<not> isAnalysisRunning ?s" by (simp add: serving_server_eq)
  have h3: "\<not> exited ?s" by (simp add: serving_server_eq)
  have c: "cachedAnalysis ?s = Some old_report" by (simp add: serving_server_eq)
  have len: "length (calls ?s) = 1" by (simp add: serving_server_eq)
  have st: "calls (run ?evs (step Call ?s)) =
              [Resolved old_report, AwaitingAnalyses sample_graph, Waiting]"
    using ne by (simp add: serving_server_eq step_def segs)
  have h4: "settles ?e (length (calls ?s)) (calls (run ?evs (step Call ?s)) ! length (calls ?s))"
    by (simp only: st len) simp
  have h5: "failure ?e = Some ''LLM analysis failed.''" by simp
  note t = failed_run_keeps_cached_report[OF h1 h2 h3 h4 h5]
  show ?thesis using h1 h2 h3 c t by (simp add: len)
qed

text \<open>
  Claim C8.  Zero files give an empty graph, and when \<^verbatim>\<open>parseDependencies\<close> resolves with
  an empty graph the run fails: the call rejects with the message
  \<^verbatim>\<open>Parser found no files or dependencies.\<close>, which differs from the message of an
  analyzer failure; nothing is cached, the flag is cleared, and the call never resolves
  with a report.
\<close>

theorem empty_graph_fails_the_run:
  assumes "i < length (calls s)" and "calls s ! i = AwaitingParse" and "\<not> exited s"
  shows "parseDependencies P [] = [] \<and>
         calls (step (ParseSettled i (Inr [])) s) ! i =
           Rejected ''Parser found no files or dependencies.'' \<and>
         ''Parser found no files or dependencies.'' \<noteq> ''LLM analysis failed.'' \<and>
         cachedAnalysis (step (ParseSettled i (Inr [])) s) = cachedAnalysis s \<and>
         \<not> isAnalysisRunning (step (ParseSettled i (Inr [])) s) \<and>
         (\<forall>evs report. calls (run evs (step (ParseSettled i (Inr [])) s)) ! i \<noteq> Resolved report)"
proof -
  let ?e = "ParseSettled i (Inr [])"
  have st: "settles ?e i (calls s ! i)" using assms(2) by simp
  have fl: "failure ?e = Some ''Parser found no files or dependencies.''" by simp
  note f = step_failure[OF assms(1) st fl assms(3)]
  from f have rej: "calls (step ?e s) ! i = Rejected ''Parser found no files or dependencies.''"
    by blast
  from f have len: "i < length (calls (step ?e s))" using assms(1) by simp
  have never: "calls (run evs (step ?e s)) ! i \<noteq> Resolved report" for evs report
    using run_rejected[OF len rej, of evs] by simp
  have p: "parseDependencies P [] = []" by (simp add: parseDependencies_def)
  show ?thesis using p f never by simp
qed

theorem empty_graph_fails_the_run_witness:
  "1 < length (calls (step Call serving_server)) \<and>
   calls (step Call serving_server) ! 1 = AwaitingParse \<and>
   \<not> exited (step Call serving_server) \<and>
   calls (run [Call, ParseSettled 1 (Inr [])] serving_server) ! 1 =
     Rejected ''Parser found no files or dependencies.'' \<and>
   cachedAnalysis (run [Call, ParseSettled 1 (Inr [])] serving_server) = Some old_report"
proof -
  let ?s = "step Call serving_server"
  have h1: "1 < length (calls ?s)" by (simp add: serving_server_eq step_def segs)
  have h2: "calls ?s ! 1 = AwaitingParse" by (simp add: serving_server_eq step_def segs)
  have h3: "\<not> exited ?s" by (simp add: serving_server_eq step_def segs)
  have c: "cachedAnalysis ?s = Some old_report" by (simp add: serving_server_eq step_def segs)
  note t = empty_graph_fails_the_run[OF h1 h2 h3]
  from t have "calls (step (ParseSettled 1 (Inr [])) ?s) ! 1 =
           Rejected ''Parser found no files or dependencies.''" by blast
  moreover from t c have "cachedAnalysis (step (ParseSettled 1 (Inr [])) ?s) = Some old_report"
    by simp
  ultimately show ?thesis using h1 h2 h3 by simp
qed

text \<open>
  Claim C2, amended.  In a state with no cached report and one run in flight,
  \<^verbatim>\<open>GET /api/analysis\<close> answers 503 \<^verbatim>\<open>pending\<close>; no state ever has more than one call in the
  pipeline; two calls of \<^verbatim>\<open>runFullAnalysis\<close> made while the run is in flight both enter
  the waiting branch; and when the run then succeeds, each of the two resolves, at its
  first poll, with the report of that run, provided no further call is made in between.
  Otherwise a waiting call resolves with whatever is cached at its first poll at which no
  run is in flight: in any state, a waiting call changes only when its own timer fires while
  no run is in flight and a report is cached, and then resolves with that report.
\<close>

theorem waiting_calls_share_the_cached_report:
  assumes "single_flight s" and "i < length (calls s)" and "in_pipeline (calls s ! i)"
    and "cachedAnalysis s = None" and "\<not> exited s"
    and "in_pipeline (calls (run a (step Call s)) ! i)"
    and "calls (run b (step Call (run a (step Call s)))) ! i = AwaitingAnalyses dm"
    and "Call \<notin> set c"
  shows "get_analysis s = Pending \<and>
         (\<forall>evs. length (filter in_pipeline (calls (run evs s))) \<le> 1) \<and>
         calls (step Call s) ! length (calls s) = Waiting \<and>
         calls (step Call (run a (step Call s))) ! length (calls (run a (step Call s))) = Waiting \<and>
         calls (run c (step (AnalysesSettled i (Inr (Some llm)) now)
                        (run b (step Call (run a (step Call s)))))) ! length (calls s) =
           (if Tick (length (calls s)) \<in> set c then Resolved (make_report now llm dm)
            else Waiting) \<and>
         calls (run c (step (AnalysesSettled i (Inr (Some llm)) now)
                        (run b (step Call (run a (step Call s))))))
             ! length (calls (run a (step Call s))) =
           (if Tick (length (calls (run a (step Call s)))) \<in> set c
            then Resolved (make_report now llm dm) else Waiting) \<and>
         (\<forall>t w e. w < length (calls t) \<and> calls t ! w = Waiting \<longrightarrow>
            calls (step e t) ! w =
              (if e = Tick w \<and> \<not> isAnalysisRunning t \<and> \<not> exited t then
                 (case cachedAnalysis t of Some r \<Rightarrow> Resolved r | None \<Rightarrow> Waiting)
               else Waiting))"
proof -
  let ?w1 = "length (calls s)"
  let ?s1 = "step Call s"
  let ?sa = "run a ?s1"
  let ?w2 = "length (calls ?sa)"
  let ?s2 = "step Call ?sa"
  let ?sb = "run b ?s2"
  let ?s4 = "step (AnalysesSettled i (Inr (Some llm)) now) ?sb"
  have running: "isAnalysisRunning s" using assms(1,2,3) by (rule pipeline_running)
  have get: "get_analysis s = Pending" using running assms(4) by (simp add: get_analysis_def)
  have one: "length (filter in_pipeline (calls (run evs s))) \<le> 1" for evs
    using run_single_flight[OF assms(1), of evs] by (simp add: single_flight_def split: if_splits)
  \<comment> \<open>the first call waits\<close>
  note c1 = step_Call_running[OF running assms(5)]
  have w1_s1: "calls ?s1 ! ?w1 = Waiting" using c1 by simp
  have sf1: "single_flight ?s1" using assms(1) by (rule step_single_flight)
  have i1: "i < length (calls ?s1)" and w1_lt1: "?w1 < length (calls ?s1)"
    using c1 assms(2) by simp_all
  \<comment> \<open>events while the run is in flight\<close>
  note fa = run_in_flight[OF sf1 i1 assms(6)]
  have w1_sa: "calls ?sa ! ?w1 = Waiting" using fa w1_lt1 w1_s1 by blast
  have run_a: "isAnalysisRunning ?sa" using fa by blast
  have alive_a: "\<not> exited ?sa" using fa c1 by simp
  have sfa: "single_flight ?sa" using sf1 by (rule run_single_flight)
  have w1_lta: "?w1 < ?w2" using w1_lt1 run_length[of ?s1 a] by simp
  have ia: "i < ?w2" using i1 run_length[of ?s1 a] by simp
  \<comment> \<open>the second call waits\<close>
  note c2 = step_Call_running[OF run_a alive_a]
  have w2_s2: "calls ?s2 ! ?w2 = Waiting" using c2 by simp
  have w1_s2: "calls ?s2 ! ?w1 = Waiting" using c2 w1_sa w1_lta by (simp add: nth_append)
  have sf2: "single_flight ?s2" using sfa by (rule step_single_flight)
  have len2: "length (calls ?s2) = Suc ?w2" using c2 by simp
  have i2: "i < length (calls ?s2)" using ia len2 by simp
  \<comment> \<open>events until the run is about to complete\<close>
  have pipe_b: "in_pipeline (calls ?sb ! i)" using assms(7) by simp
  note fb = run_in_flight[OF sf2 i2 pipe_b]
  have w1_sb: "calls ?sb ! ?w1 = Waiting" using fb w1_s2 w1_lta len2 by simp
  have w2_sb: "calls ?sb ! ?w2 = Waiting" using fb w2_s2 len2 by simp
  have alive_b: "\<not> exited ?sb" using fb c2 by simp
  have sfb: "single_flight ?sb" using sf2 by (rule run_single_flight)
  have lenb: "length (calls ?s2) \<le> length (calls ?sb)" by (rule run_length)
  have ib: "i < length (calls ?sb)" using i2 lenb by simp
  have ne1: "?w1 \<noteq> i" using w1_sb assms(7) by auto
  have ne2: "?w2 \<noteq> i" using w2_sb assms(7) by auto
  \<comment> \<open>the run completes and caches its report\<close>
  note ok = step_success[OF ib assms(7) alive_b, of llm now]
  have w1_s4: "calls ?s4 ! ?w1 = Waiting" using ok w1_sb ne1 w1_lta len2 lenb by simp
  have w2_s4: "calls ?s4 ! ?w2 = Waiting" using ok w2_sb ne2 len2 lenb by simp
  have sf4: "single_flight ?s4" using sfb by (rule step_single_flight)
  have idle4: "\<not> isAnalysisRunning ?s4" using ok by blast
  have alive4: "\<not> exited ?s4" using ok by blast
  have cache4: "cachedAnalysis ?s4 = Some (make_report now llm dm)" using ok by blast
  have len4: "length (calls ?s4) = length (calls ?sb)" using ok by blast
  \<comment> \<open>polls while no further call is made\<close>
  note fin = idle_run[OF sf4 idle4 assms(8) alive4]
  have r1: "calls (run c ?s4) ! ?w1 =
      (if Tick ?w1 \<in> set c then Resolved (make_report now llm dm) else Waiting)"
    using fin w1_s4 cache4 len4 w1_lta len2 lenb by simp
  have r2: "calls (run c ?s4) ! ?w2 =
      (if Tick ?w2 \<in> set c then Resolved (make_report now llm dm) else Waiting)"
    using fin w2_s4 cache4 len4 len2 lenb by simp
  have poll: "\<forall>t w e. w < length (calls t) \<and> calls t ! w = Waiting \<longrightarrow>
            calls (step e t) ! w =
              (if e = Tick w \<and> \<not> isAnalysisRunning t \<and> \<not> exited t then
                 (case cachedAnalysis t of Some r \<Rightarrow> Resolved r | None \<Rightarrow> Waiting)
               else Waiting)"
    using step_waiting by blast
  show ?thesis using get one w1_s1 w2_s2 r1 r2 poll by blast
qed

theorem waiting_calls_share_the_cached_report_witness:
  "single_flight (step Call initial_server) \<and>
   cachedAnalysis (step Call initial_server) = None \<and>
   \<not> exited (step Call initial_server) \<and>
   calls (run [ParseSettled 0 (Inr sample_graph)]
            (step Call (run [] (step Call (step Call initial_server))))) ! 0 =
     AwaitingAnalyses sample_graph \<and>
   calls (run [Tick 2, Tick 1]
           (step (AnalysesSettled 0 (Inr (Some sample_llm)) ''2025-01-02T00:00:00.000Z'')
             (run [ParseSettled 0 (Inr sample_graph)]
                (step Call (run [] (step Call (step Call initial_server))))))) ! 1 =
     Resolved (make_report ''2025-01-02T00:00:00.000Z'' sample_llm sample_graph) \<and>
   calls (run [Tick 2, Tick 1]
           (step (AnalysesSettled 0 (Inr (Some sample_llm)) ''2025-01-02T00:00:00.000Z'')
             (run [ParseSettled 0 (Inr sample_graph)]
                (step Call (run [] (step Call (step Call initial_server))))))) ! 2 =
     Resolved (make_report ''2025-01-02T00:00:00.000Z'' sample_llm sample_graph)"
proof -
  let ?s = "step Call initial_server"
  have h1: "single_flight ?s" by (simp add: step_def segs initial_server_def single_flight_def)
  have h2: "0 < length (calls ?s)" by (simp add: step_def segs initial_server_def)
  have h3: "in_pipeline (calls ?s ! 0)" by (simp add: step_def segs initial_server_def)
  have h4: "cachedAnalysis ?s = None" by (simp add: step_def segs initial_server_def)
  have h5: "\<not> exited ?s" by (simp add: step_def segs initial_server_def)
  have h6: "in_pipeline (calls (run [] (step Call ?s)) ! 0)"
    by (simp add: step_def segs initial_server_def)
  have ne: "sample_graph \<noteq> []" by (simp add: sample_graph_def)
  have h7: "calls (run [ParseSettled 0 (Inr sample_graph)] (step Call (run [] (step Call ?s)))) ! 0 =
              AwaitingAnalyses sample_graph"
    using ne by (simp add: step_def segs initial_server_def)
  have h8: "Call \<notin> set [Tick 2, Tick 1]" by simp
  have l1: "length (calls ?s) = 1" by (simp add: step_def segs initial_server_def)
  have l2: "length (calls (run [] (step Call ?s))) = 2"
    by (simp add: step_def segs initial_server_def)
  note t = waiting_calls_share_the_cached_report[OF h1 h2 h3 h4 h5 h6 h7 h8,
             of sample_llm "''2025-01-02T00:00:00.000Z''"]
  from t have r1: "calls (run [Tick 2, Tick 1]
           (step (AnalysesSettled 0 (Inr (Some sample_llm)) ''2025-01-02T00:00:00.000Z'')
             (run [ParseSettled 0 (Inr sample_graph)] (step Call (run [] (step Call ?s)))))) ! 1 =
     Resolved (make_report ''2025-01-02T00:00:00.000Z'' sample_llm sample_graph)"
    unfolding l1 l2 by simp
  from t have r2: "calls (run [Tick 2, Tick 1]
           (step (AnalysesSettled 0 (Inr (Some sample_llm)) ''2025-01-02T00:00:00.000Z'')
             (run [ParseSettled 0 (Inr sample_graph)] (step Call (run [] (step Call ?s)))))) ! 2 =
     Resolved (make_report ''2025-01-02T00:00:00.000Z'' sample_llm sample_graph)"
    unfolding l1 l2 by simp
  show ?thesis using h1 h4 h5 h7 r1 r2 by blast
qed

text \<open>
  Claim C2 as stated fails.  A \<^verbatim>\<open>GET /api/analysis\<close> request made while no report is cached
  and a run is in flight receives 503 \<^verbatim>\<open>pending\<close>, not the report.  And of two calls of
  \<^verbatim>\<open>runFullAnalysis\<close> that wait for the same run, the one that polls first receives that
  run's report, while the other, if a refresh starts before its poll, receives the report
  of the refresh.
\<close>

theorem waiting_calls_can_receive_different_reports:
  "get_analysis (run [Call] initial_server) = Pending \<and>
   cachedAnalysis (run [Call, Call, Call] initial_server) = None \<and>
   calls (run [Call, Call, Call] initial_server) = [AwaitingParse, Waiting, Waiting] \<and>
   calls (run [Call, Call, Call,
               ParseSettled 0 (Inr sample_graph),
               AnalysesSettled 0 (Inr (Some sample_llm)) ''2025-01-02T00:00:00.000Z'',
               Tick 1,
               Call,
               ParseSettled 3 (Inr sample_graph),
               AnalysesSettled 3 (Inr (Some sample_llm)) ''2025-01-02T00:00:05.000Z'',
               Tick 2] initial_server) =
     [Resolved (make_report ''2025-01-02T00:00:00.000Z'' sample_llm sample_graph),
      Resolved (make_report ''2025-01-02T00:00:00.000Z'' sample_llm sample_graph),
      Resolved (make_report ''2025-01-02T00:00:05.000Z'' sample_llm sample_graph),
      Resolved (make_report ''2025-01-02T00:00:05.000Z'' sample_llm sample_graph)] \<and>
   make_report ''2025-01-02T00:00:00.000Z'' sample_llm sample_graph \<noteq>
     make_report ''2025-01-02T00:00:05.000Z'' sample_llm sample_graph"
proof -
  have ne: "sample_graph \<noteq> []" by (simp add: sample_graph_def)
  show ?thesis
    using ne
    by (simp add: step_def segs initial_server_def get_analysis_def make_report_def Let_def)
qed

text \<open>
  Claim C9, amended.  In every state the process reaches, a call in the waiting branch
  never rejects, whatever happens later, and it changes only when its own timer fires while
  no run is in flight and a report is cached, resolving with that report.  When the run in
  flight fails, the waiting call does not observe the failure.  If nothing was cached, it
  never settles: the failed run is then the start-up run, whose rejection ends the
  process.  If a report was cached, the waiting call resolves with that older report at its
  first poll, provided no further call of \<^verbatim>\<open>runFullAnalysis\<close> is made before that poll.
\<close>

theorem waiting_call_resolves_only_from_cache:
  assumes "s = run pre initial_server" and "\<not> exited s"
    and "w < length (calls s)" and "calls s ! w = Waiting"
    and "i < length (calls s)" and "settles e i (calls s ! i)" and "failure e = Some msg"
  shows "(\<forall>evs m. calls (run evs s) ! w \<noteq> Rejected m) \<and>
         (\<forall>evs e'. calls (run evs s) ! w = Waiting \<longrightarrow>
            calls (step e' (run evs s)) ! w =
              (if e' = Tick w \<and> \<not> isAnalysisRunning (run evs s) \<and> \<not> exited (run evs s) then
                 (case cachedAnalysis (run evs s) of Some r \<Rightarrow> Resolved r | None \<Rightarrow> Waiting)
               else Waiting)) \<and>
         calls (step e s) ! i = Rejected msg \<and>
         calls (step e s) ! w = Waiting \<and>
         (cachedAnalysis s = None \<longrightarrow> (\<forall>evs. calls (run evs (step e s)) ! w = Waiting)) \<and>
         (\<forall>old evs. cachedAnalysis s = Some old \<and> Call \<notin> set evs \<longrightarrow>
            calls (run evs (step e s)) ! w =
              (if Tick w \<in> set evs then Resolved old else Waiting))"
proof -
  have sf: "single_flight s" and lc: "lifecycle s"
    using reachable_invariants[of pre] assms(1) by simp_all
  have never: "calls (run evs s) ! w \<noteq> Rejected m" for evs m
    using run_waiting_outcome[OF assms(3,4), of evs] by auto
  have only: "calls (run evs s) ! w = Waiting \<longrightarrow>
            calls (step e' (run evs s)) ! w =
              (if e' = Tick w \<and> \<not> isAnalysisRunning (run evs s) \<and> \<not> exited (run evs s) then
                 (case cachedAnalysis (run evs s) of Some r \<Rightarrow> Resolved r | None \<Rightarrow> Waiting)
               else Waiting)" for evs e'
  proof
    assume wt: "calls (run evs s) ! w = Waiting"
    have "w < length (calls (run evs s))" using assms(3) run_length[of s evs] by simp
    then show "calls (step e' (run evs s)) ! w =
              (if e' = Tick w \<and> \<not> isAnalysisRunning (run evs s) \<and> \<not> exited (run evs s) then
                 (case cachedAnalysis (run evs s) of Some r \<Rightarrow> Resolved r | None \<Rightarrow> Waiting)
               else Waiting)"
      using wt by (rule step_waiting)
  qed
  note f = step_failure[OF assms(5,6,7,2)]
  have pipe: "in_pipeline (calls s ! i)" using assms(6) by (rule settles_in_pipeline)
  then have wi: "w \<noteq> i" using assms(4) by auto
  from f have rej: "calls (step e s) ! i = Rejected msg" by blast
  from f wi assms(3,4) have w': "calls (step e s) ! w = Waiting" by simp
  from f assms(3) have wlen: "w < length (calls (step e s))" by simp
  have sf': "single_flight (step e s)" using sf by (rule step_single_flight)
  from f have idle': "\<not> isAnalysisRunning (step e s)" by blast
  from f have cache': "cachedAnalysis (step e s) = cachedAnalysis s" by blast
  from f have ex': "exited (step e s) = (i = 0)" by blast
  have hangs: "cachedAnalysis s = None \<longrightarrow> (\<forall>evs. calls (run evs (step e s)) ! w = Waiting)"
  proof (intro impI allI)
    fix evs assume none: "cachedAnalysis s = None"
    have "i = 0" using lc assms(2) none assms(5) pipe by (rule startup_run_is_call_0)
    then have "exited (step e s)" using ex' by simp
    then have "run evs (step e s) = step e s" by (rule run_exited)
    then show "calls (run evs (step e s)) ! w = Waiting" using w' by simp
  qed
  have polls: "\<forall>old evs. cachedAnalysis s = Some old \<and> Call \<notin> set evs \<longrightarrow>
            calls (run evs (step e s)) ! w =
              (if Tick w \<in> set evs then Resolved old else Waiting)"
  proof (intro allI impI)
    fix old evs assume a: "cachedAnalysis s = Some old \<and> Call \<notin> set evs"
    then have "cachedAnalysis s \<noteq> None" by simp
    then have "i \<noteq> 0" using lc assms(5) pipe by (intro refresh_run_is_not_call_0)
    then have alive': "\<not> exited (step e s)" using ex' by simp
    from a have nc: "Call \<notin> set evs" by simp
    note fin = idle_run[OF sf' idle' nc alive']
    show "calls (run evs (step e s)) ! w =
              (if Tick w \<in> set evs then Resolved old else Waiting)"
      using fin wlen w' cache' a by simp
  qed
  show ?thesis using never only rej w' hangs polls by blast
qed

theorem waiting_call_resolves_only_from_cache_witness:
  "refreshing_server = run [Call, ParseSettled 0 (Inr sample_graph),
          AnalysesSettled 0 (Inr (Some sample_llm)) ''2025-01-01T00:00:00.000Z'',
          Call, Call, ParseSettled 1 (Inr sample_graph)] initial_server \<and>
   \<not> exited refreshing_server \<and>
   calls refreshing_server ! 2 = Waiting \<and>
   cachedAnalysis refreshing_server = Some old_report \<and>
   settles (AnalysesSettled 1 (Inr None) ''2025-01-02T00:00:00.000Z'') 1
     (calls refreshing_server ! 1) \<and>
   calls (step (AnalysesSettled 1 (Inr None) ''2025-01-02T00:00:00.000Z'')
            refreshing_server) ! 1 = Rejected ''LLM analysis failed.'' \<and>
   calls (run [Tick 2]
           (step (AnalysesSettled 1 (Inr None) ''2025-01-02T00:00:00.000Z'')
              refreshing_server)) ! 2 = Resolved old_report"
proof -
  let ?s = "refreshing_server"
  let ?e = "AnalysesSettled 1 (Inr None) ''2025-01-02T00:00:00.000Z''"
  have h1: "?s = run [Call, ParseSettled 0 (Inr sample_graph),
          AnalysesSettled 0 (Inr (Some sample_llm)) ''2025-01-01T00:00:00.000Z'',
          Call, Call, ParseSettled 1 (Inr sample_graph)] initial_server"
    unfolding refreshing_server_def serving_server_def run_append[symmetric] by simp
  have h2: "\<not> exited ?s" by (simp add: refreshing_server_eq)
  have h3: "2 < length (calls ?s)" by (simp add: refreshing_server_eq)
  have h4: "calls ?s ! 2 = Waiting" by (simp add: refreshing_server_eq)
  have h5: "1 < length (calls ?s)" by (simp add: refreshing_server_eq)
  have h6: "settles ?e 1 (calls ?s ! 1)" by (simp add: refreshing_server_eq)
  have h7: "failure ?e = Some ''LLM analysis failed.''" by simp
  have c: "cachedAnalysis ?s = Some old_report" by (simp add: refreshing_server_eq)
  note t = waiting_call_resolves_only_from_cache[OF h1 h2 h3 h4 h5 h6 h7]
  from t have rej: "calls (step ?e ?s) ! 1 = Rejected ''LLM analysis failed.''" by blast
  from t have "cachedAnalysis ?s = Some old_report \<and> Call \<notin> set [Tick 2] \<longrightarrow>
            calls (run [Tick 2] (step ?e ?s)) ! 2 =
              (if Tick 2 \<in> set [Tick 2] then Resolved old_report else Waiting)" by blast
  then have res: "calls (run [Tick 2] (step ?e ?s)) ! 2 = Resolved old_report"
    using c by simp
  show ?thesis using h1 h2 h4 c h6 rej res by blast
qed

text \<open>
  Claim C9 as stated fails in its last clause.  A refresh is in flight with an older
  report cached and one call waits for it; the refresh fails; before the waiting call polls,
  another refresh starts and later succeeds.  The waiting call then resolves with the
  report of that later refresh, not with the older one.
\<close>

theorem waiting_call_can_resolve_with_newer_report:
  "cachedAnalysis refreshing_server = Some old_report \<and>
   calls refreshing_server =
     [Resolved old_report, AwaitingAnalyses sample_graph, Waiting] \<and>
   calls (run [AnalysesSettled 1 (Inr None) ''2025-01-02T00:00:00.000Z'']
            refreshing_server) =
     [Resolved old_report, Rejected ''LLM analysis failed.'', Waiting] \<and>
   calls (run [AnalysesSettled 1 (Inr None) ''2025-01-02T00:00:00.000Z'',
               Call,
               Tick 2,
               ParseSettled 3 (Inr sample_graph),
               AnalysesSettled 3 (Inr (Some sample_llm)) ''2025-01-02T00:00:05.000Z'',
               Tick 2] refreshing_server) ! 2 =
     Resolved (make_report ''2025-01-02T00:00:05.000Z'' sample_llm sample_graph) \<and>
   make_report ''2025-01-02T00:00:05.000Z'' sample_llm sample_graph \<noteq> old_report"
proof -
  have ne: "sample_graph \<noteq> []" by (simp add: sample_graph_def)
  have neq: "make_report ''2025-01-02T00:00:05.000Z'' sample_llm sample_graph \<noteq> old_report"
    by (simp add: old_report_def make_report_def)
  show ?thesis
    using ne neq
    by (simp add: refreshing_server_eq step_def segs Let_def)
       (simp add: make_report_def)
qed

end
